theory Spec2Isabelle
  imports Main "HOL-Library.AList"
begin

section \<open>Errors and lazy results\<close>

text \<open>
  The source raises two exceptions: \<^verbatim>\<open>nx.NetworkXError\<close> when an endpoint is not in the
  graph (the spec's \<open>NodeNotFound\<close>) and \<^verbatim>\<open>nx.NetworkXNoPath\<close> (the spec's
  \<open>NoPathError\<close>). A third one comes from the expression that builds the message of the
  former: the \<^verbatim>\<open>TypeError\<close> of the string operator \<^verbatim>\<open>%\<close>.
\<close>

datatype error = NodeNotFound | NoPath | TypeError

text \<open>
  \<^verbatim>\<open>raise nx.NetworkXError('source node %s not in graph' % source)\<close> evaluates its
  argument first. The operator \<^verbatim>\<open>%\<close> takes a right operand that is a tuple as the tuple
  of all arguments of the format, and any other value as the one argument; the format has
  one conversion, so a tuple of any length but one raises \<^verbatim>\<open>TypeError\<close> and the
  \<^verbatim>\<open>NetworkXError\<close> is never constructed. Whether a node is a tuple, and of which
  length, is a property of the Python value that the node type \<open>'a\<close> of this development
  does not show: the public operations take it as the parameter \<open>tuple_len\<close> (\<open>None\<close> for
  a node that is not a tuple). \<open>format_arguments\<close> is the number of arguments the operator
  finds in its right operand, \<open>node_error\<close> the exception that
  \<^verbatim>\<open>raise nx.NetworkXError('... %s ...' % node)\<close> ends with. \<open>plain_node\<close> describes node
  types without tuples (numbers, strings), \<open>pair_node\<close> nodes that are pairs, such as the
  coordinates of a grid.
\<close>

definition format_arguments :: "nat option \<Rightarrow> nat" where
  "format_arguments len = (case len of None \<Rightarrow> 1 | Some n \<Rightarrow> n)"

definition node_error :: "('a \<Rightarrow> nat option) \<Rightarrow> 'a \<Rightarrow> error" where
  "node_error tuple_len node =
     (if format_arguments (tuple_len node) = 1 then NodeNotFound else TypeError)"

definition plain_node :: "'a \<Rightarrow> nat option" where
  "plain_node node = None"

definition pair_node :: "'a \<times> 'b \<Rightarrow> nat option" where
  "pair_node node = Some 2"

text \<open>
  A Python tuple of nodes is a list. A generator is modelled by everything its consumer can
  observe when it is run to the end: the sequence of values it yields, in order, and the
  exception that ends the iteration, if any (\<open>None\<close> is a normal \<^verbatim>\<open>StopIteration\<close>).
  An exception raised by the public function itself, before a generator exists, is the
  \<open>Inl\<close> of the call's result.
\<close>

type_synonym 'a path = "'a list"
type_synonym 'a generator = "'a path list \<times> error option"

section \<open>The graph collaborator\<close>

text \<open>
  Modelled from the spec: the graph classes are not part of the source file; the search code
  uses a graph only through \<^verbatim>\<open>source in G\<close>, \<^verbatim>\<open>len(G)\<close>, \<^verbatim>\<open>G.is_directed()\<close>,
  \<^verbatim>\<open>G.is_multigraph()\<close>, \<^verbatim>\<open>G[node]\<close>, \<^verbatim>\<open>G.successors(node)\<close>, \<^verbatim>\<open>G.predecessors(node)\<close>
  and \<^verbatim>\<open>G.edges(node)\<close>. A graph is a list of nodes, a list of edges (an edge \<open>(u, v)\<close> leads
  from \<open>u\<close> to \<open>v\<close> in a directed graph and joins \<open>u\<close> and \<open>v\<close> in an undirected one; a
  multigraph may list an edge several times) and the two kind flags.
\<close>

record 'a graph =
  g_nodes :: "'a list"
  g_edges :: "('a \<times> 'a) list"
  g_directed :: bool
  g_multigraph :: bool

definition contains :: "'a graph \<Rightarrow> 'a \<Rightarrow> bool" where
  "contains G n = (n \<in> set (g_nodes G))"

definition len :: "'a graph \<Rightarrow> int" where
  "len G = int (length (remdups (g_nodes G)))"

definition successors :: "'a graph \<Rightarrow> 'a \<Rightarrow> 'a list" where
  "successors G n = remdups [v. (u, v) \<leftarrow> g_edges G, u = n]"

definition predecessors :: "'a graph \<Rightarrow> 'a \<Rightarrow> 'a list" where
  "predecessors G n = remdups [u. (u, v) \<leftarrow> g_edges G, v = n]"

text \<open>
  \<^verbatim>\<open>G.edges(n)\<close>: the edges at \<open>n\<close>, each reported as \<open>(n, other end)\<close>, once per parallel
  edge. In a directed graph these are the edges leaving \<open>n\<close>.
\<close>

definition edges_of :: "'a graph \<Rightarrow> 'a \<Rightarrow> ('a \<times> 'a) list" where
  "edges_of G n =
     concat (map (\<lambda>(u, v). if u = n then [(n, v)]
                            else if v = n \<and> \<not> g_directed G then [(n, u)]
                            else [])
                 (g_edges G))"

text \<open>\<^verbatim>\<open>G[n]\<close>: the adjacency of \<open>n\<close>, every neighbour once.\<close>

definition adj :: "'a graph \<Rightarrow> 'a \<Rightarrow> 'a list" where
  "adj G n = remdups (map snd (edges_of G n))"

section \<open>Neighbour resolution\<close>

text \<open>
  The simple-graph engines define \<^verbatim>\<open>neighbors = lambda modus, node: iter(G[node])\<close> and
  replace it, for a directed graph, by
  \<^verbatim>\<open>lambda modus, node: G.predecessors(node) if modus else G.successors(node)\<close>.
  The multigraph engines use \<^verbatim>\<open>[v for u, v in G.edges(node)]\<close> whatever \<open>modus\<close> is.
\<close>

definition neighbors :: "'a graph \<Rightarrow> bool \<Rightarrow> 'a \<Rightarrow> 'a list" where
  "neighbors G modus node =
     (if g_directed G then (if modus then predecessors G node else successors G node)
      else adj G node)"

definition neighbors_multi :: "'a graph \<Rightarrow> bool \<Rightarrow> 'a \<Rightarrow> 'a list" where
  "neighbors_multi G modus node = [v. (u, v) \<leftarrow> edges_of G node]"

definition resolver :: "'a graph \<Rightarrow> bool \<Rightarrow> bool \<Rightarrow> 'a \<Rightarrow> 'a list" where
  "resolver G multi = (if multi then neighbors_multi G else neighbors G)"

text \<open>
  The two sides are kept in a two-element list indexed by the boolean \<open>modus\<close>
  (\<^verbatim>\<open>tree[modus]\<close>, \<^verbatim>\<open>tree[modus^1]\<close>, \<^verbatim>\<open>tree[modus] = temp_tree\<close>): a pair here.
\<close>

definition sel :: "bool \<Rightarrow> 'x \<times> 'x \<Rightarrow> 'x" where
  "sel modus p = (if modus then snd p else fst p)"

definition upd :: "bool \<Rightarrow> 'x \<Rightarrow> 'x \<times> 'x \<Rightarrow> 'x \<times> 'x" where
  "upd modus v p = (if modus then (fst p, v) else (v, snd p))"

text \<open>Every node a graph mentions; all neighbour lists stay inside it.\<close>

definition verts :: "'a graph \<Rightarrow> 'a set" where
  "verts G = set (g_nodes G) \<union> fst ` set (g_edges G) \<union> snd ` set (g_edges G)"

lemma finite_verts: "finite (verts G)"
  by (simp add: verts_def)

lemma edges_of_iff:
  "(a, b) \<in> set (edges_of G n) \<longleftrightarrow>
     a = n \<and> ((n, b) \<in> set (g_edges G) \<or> (\<not> g_directed G \<and> (b, n) \<in> set (g_edges G)))"
proof -
  have "(a, b) \<in> set (edges_of G n) \<longleftrightarrow>
    (\<exists>(u, v) \<in> set (g_edges G). (u = n \<and> (a, b) = (n, v)) \<or>
        (u \<noteq> n \<and> v = n \<and> \<not> g_directed G \<and> (a, b) = (n, u)))"
    unfolding edges_of_def by (auto split: if_splits)
  also have "\<dots> \<longleftrightarrow>
      a = n \<and> ((n, b) \<in> set (g_edges G) \<or> (\<not> g_directed G \<and> (b, n) \<in> set (g_edges G)))"
    by (cases "b = n") force+
  finally show ?thesis .
qed

lemma concat_singleton_map: "concat (map (\<lambda>x. [f x]) xs) = map f xs"
  by (induction xs) auto

lemma neighbors_multi_map: "neighbors_multi G modus n = map snd (edges_of G n)"
  by (simp add: neighbors_multi_def case_prod_unfold concat_singleton_map)

lemma snd_edges_of:
  "snd ` set (edges_of G n) =
     {v. (n, v) \<in> set (g_edges G) \<or> (\<not> g_directed G \<and> (v, n) \<in> set (g_edges G))}"
proof -
  have "v \<in> snd ` set (edges_of G n) \<longleftrightarrow> (n, v) \<in> set (edges_of G n)" for v
  proof
    assume "v \<in> snd ` set (edges_of G n)"
    then obtain a where "(a, v) \<in> set (edges_of G n)" by force
    then show "(n, v) \<in> set (edges_of G n)" by (simp add: edges_of_iff)
  next
    assume "(n, v) \<in> set (edges_of G n)"
    then show "v \<in> snd ` set (edges_of G n)" by force
  qed
  then show ?thesis
    by (auto simp: edges_of_iff)
qed

lemma set_neighbors_multi:
  "set (neighbors_multi G modus n) =
     {v. (n, v) \<in> set (g_edges G) \<or> (\<not> g_directed G \<and> (v, n) \<in> set (g_edges G))}"
  by (simp add: neighbors_multi_map snd_edges_of)

lemma set_neighbors:
  "set (neighbors G modus n) =
     (if g_directed G
      then (if modus then {u. (u, n) \<in> set (g_edges G)} else {v. (n, v) \<in> set (g_edges G)})
      else {v. (n, v) \<in> set (g_edges G) \<or> (v, n) \<in> set (g_edges G)})"
proof (cases "g_directed G")
  case True
  then show ?thesis
    by (auto simp: neighbors_def successors_def predecessors_def)
next
  case False
  then show ?thesis
    by (simp add: neighbors_def adj_def snd_edges_of)
qed

lemma resolver_verts: "set (resolver G multi modus n) \<subseteq> verts G"
  by (auto simp: resolver_def set_neighbors set_neighbors_multi verts_def image_iff
      split: if_splits) force+

section \<open>The reachability engine\<close>

text \<open>
  One round's double loop over \<^verbatim>\<open>leaves_s\<close> and the neighbours of each leaf visits the
  candidates \<open>s\<close> in the order of \<open>concat (map (neighbors modus) leaves_s)\<close>. The scan
  returns \<open>None\<close> where the source executes \<^verbatim>\<open>return True\<close>, and the set \<^verbatim>\<open>temp\<close> otherwise.
  A Python set is a duplicate-free list.
\<close>

fun has_path_scan :: "'a list \<Rightarrow> 'a list \<Rightarrow> 'a list \<Rightarrow> 'a list \<Rightarrow> 'a list option" where
  "has_path_scan nodes_s leaves_t [] temp = Some temp"
| "has_path_scan nodes_s leaves_t (s # rest) temp =
     (if s \<notin> set nodes_s then
        (if s \<in> set leaves_t then None
         else has_path_scan nodes_s leaves_t rest (List.insert s temp))
      else has_path_scan nodes_s leaves_t rest temp)"

type_synonym 'a hp_state = "('a list \<times> 'a list) \<times> ('a list \<times> 'a list)"

definition has_path_round ::
  "(bool \<Rightarrow> 'a \<Rightarrow> 'a list) \<Rightarrow> 'a hp_state \<Rightarrow> 'a hp_state option" where
  "has_path_round nb st =
     (let leaves = fst st; nodes = snd st;
          modus = length (snd leaves) < length (fst leaves);
          nodes_s = sel modus nodes;
          leaves_t = sel (\<not> modus) leaves;
          leaves_s = sel modus leaves
      in case has_path_scan nodes_s leaves_t (concat (map (nb modus) leaves_s)) [] of
           None \<Rightarrow> None
         | Some temp \<Rightarrow> Some (upd modus temp leaves, upd modus (List.union temp nodes_s) nodes))"

lemma has_path_scan_Some:
  "has_path_scan nodes_s leaves_t cs acc = Some temp \<Longrightarrow>
     set temp = set acc \<union> (set cs - set nodes_s) \<and> set cs \<inter> set leaves_t \<subseteq> set nodes_s"
  by (induction cs arbitrary: acc) (auto split: if_splits)

lemma has_path_scan_None:
  "has_path_scan nodes_s leaves_t cs acc = None \<longleftrightarrow>
     (\<exists>s \<in> set cs. s \<notin> set nodes_s \<and> s \<in> set leaves_t)"
  by (induction cs arbitrary: acc) auto

lemma has_path_scan_distinct:
  "has_path_scan nodes_s leaves_t cs acc = Some temp \<Longrightarrow> distinct acc \<Longrightarrow> distinct temp"
  by (induction cs arbitrary: acc) (auto split: if_splits)

definition hp_measure :: "'a graph \<Rightarrow> 'a hp_state \<Rightarrow> nat" where
  "hp_measure G st =
     2 * (card (verts G - set (fst (snd st))) + card (verts G - set (snd (snd st))))
     + (if fst (fst st) \<noteq> [] \<and> snd (fst st) \<noteq> [] then 1 else 0)"

lemma has_path_round_measure:
  assumes "has_path_round (resolver G multi) st = Some st'"
    and "fst (fst st) \<noteq> []" "snd (fst st) \<noteq> []"
  shows "hp_measure G st' < hp_measure G st"
proof -
  obtain l0 l1 n0 n1 where st: "st = ((l0, l1), (n0, n1))"
    by (metis surj_pair)
  define modus where "modus = (length l1 < length l0)"
  define cs where "cs = concat (map (resolver G multi modus) (sel modus (l0, l1)))"
  from assms(1) obtain temp where
    scan: "has_path_scan (sel modus (n0, n1)) (sel (\<not> modus) (l0, l1)) cs [] = Some temp"
    and st': "st' = (upd modus temp (l0, l1), upd modus (List.union temp (sel modus (n0, n1))) (n0, n1))"
    by (auto simp: has_path_round_def st Let_def modus_def cs_def split: option.splits)
  have cs: "set cs \<subseteq> verts G"
    using resolver_verts by (fastforce simp: cs_def)
  from has_path_scan_Some[OF scan]
  have temp: "set temp = set cs - set (sel modus (n0, n1))" by simp
  show ?thesis
  proof (cases "temp = []")
    case True
    then show ?thesis
      using assms(2,3) by (simp add: st st' hp_measure_def upd_def sel_def)
  next
    case False
    then obtain x where x: "x \<in> set temp" by (cases temp) auto
    with temp cs have xin: "x \<in> verts G - set (sel modus (n0, n1))" by auto
    have "verts G - (set temp \<union> set (sel modus (n0, n1))) \<subset> verts G - set (sel modus (n0, n1))"
      using x xin by auto
    then have "card (verts G - (set temp \<union> set (sel modus (n0, n1))))
        < card (verts G - set (sel modus (n0, n1)))"
      by (intro psubset_card_mono) (auto simp: finite_verts)
    then show ?thesis
      by (auto simp: st st' hp_measure_def upd_def sel_def split: if_splits)
  qed
qed

function has_path_loop :: "'a graph \<Rightarrow> bool \<Rightarrow> 'a hp_state \<Rightarrow> bool" where
  "has_path_loop G multi st =
     (if fst (fst st) \<noteq> [] \<and> snd (fst st) \<noteq> [] then
        (case has_path_round (resolver G multi) st of
           None \<Rightarrow> True
         | Some st' \<Rightarrow> has_path_loop G multi st')
      else False)"
  by pat_completeness auto
termination
  by (relation "measure (\<lambda>(G, multi, st). hp_measure G st)")
     (auto intro: has_path_round_measure)

declare has_path_loop.simps [simp del]

definition priv_bidirectional_has_path :: "'a graph \<Rightarrow> 'a \<Rightarrow> 'a \<Rightarrow> bool" where
  "priv_bidirectional_has_path G source target =
     has_path_loop G False (([source], [target]), ([source], [target]))"

definition priv_bidirectional_has_path_multi :: "'a graph \<Rightarrow> 'a \<Rightarrow> 'a \<Rightarrow> bool" where
  "priv_bidirectional_has_path_multi G source target =
     has_path_loop G True (([source], [target]), ([source], [target]))"

definition bidirectional_has_path :: "('a \<Rightarrow> nat option) \<Rightarrow> 'a graph \<Rightarrow> 'a \<Rightarrow> 'a \<Rightarrow> error + bool" where
  "bidirectional_has_path tuple_len G source target =
     (if \<not> contains G source then Inl (node_error tuple_len source)
      else if \<not> contains G target then Inl (node_error tuple_len target)
      else if g_multigraph G then Inr (priv_bidirectional_has_path_multi G source target)
      else Inr (priv_bidirectional_has_path G source target))"

section \<open>Path stitching\<close>

text \<open>
  \<^verbatim>\<open>path_s\<close> is a partial path of the side being expanded, \<^verbatim>\<open>path_t\<close> one of the other
  side that ends at the neighbour \<open>s\<close>. The source yields
  \<^verbatim>\<open>list(path_t + tuple(reversed(path_s)))\<close> if \<open>modus\<close> and
  \<^verbatim>\<open>list(path_s + tuple(reversed(path_t)))\<close> otherwise, when
  \<^verbatim>\<open>set(path_t).intersection(path_s)\<close> is empty.
\<close>

definition stitch :: "bool \<Rightarrow> 'a path \<Rightarrow> 'a path \<Rightarrow> 'a path" where
  "stitch modus path_s path_t = (if modus then path_t @ rev path_s else path_s @ rev path_t)"

section \<open>The all-simple-paths engine\<close>

text \<open>
  A side's tree is a dict from a leaf to the set of partial paths that end there: an
  association list in insertion order. \<^verbatim>\<open>temp_tree[s].add(p)\<close>, with the fallback
  \<^verbatim>\<open>temp_tree[s] = {p}\<close> when the key is missing, is \<open>tree_add\<close>.
\<close>

type_synonym 'a tree = "('a \<times> 'a path list) list"

definition tree_add :: "'a \<Rightarrow> 'a path \<Rightarrow> 'a tree \<Rightarrow> 'a tree" where
  "tree_add s p temp_tree =
     AList.update s (case map_of temp_tree s of Some ps \<Rightarrow> List.insert p ps | None \<Rightarrow> [p])
       temp_tree"

text \<open>
  The body of the three nested loops, for one neighbour \<open>s\<close> of a leaf and one path
  \<^verbatim>\<open>path_s\<close> to that leaf: the state is the yields so far and \<^verbatim>\<open>temp_tree\<close>.
\<close>

definition simple_step ::
  "bool \<Rightarrow> 'a tree \<Rightarrow> 'a \<times> 'a path \<Rightarrow> 'a path list \<times> 'a tree \<Rightarrow> 'a path list \<times> 'a tree" where
  "simple_step modus tree_target sp acc =
     (let s = fst sp; path_s = snd sp in
      if s \<notin> set path_s then
        (fst acc @
           (case map_of tree_target s of
              Some paths_t \<Rightarrow>
                [stitch modus path_s path_t. path_t \<leftarrow> paths_t, set path_t \<inter> set path_s = {}]
            | None \<Rightarrow> []),
         tree_add s (path_s @ [s]) (snd acc))
      else acc)"

text \<open>
  The three nested loops \<^verbatim>\<open>for leave, paths in tree_source.items()\<close>,
  \<^verbatim>\<open>for s in neighbors(modus, leave)\<close>, \<^verbatim>\<open>for path_s in paths\<close> run the body on the pairs
  of \<open>simple_work\<close>, in this order, starting from no yields and an empty \<^verbatim>\<open>temp_tree\<close>.
\<close>

definition simple_work ::
  "(bool \<Rightarrow> 'a \<Rightarrow> 'a list) \<Rightarrow> bool \<Rightarrow> 'a tree \<Rightarrow> ('a \<times> 'a path) list" where
  "simple_work nb modus tree_source =
     [(s, path_s). (leave, paths) \<leftarrow> tree_source, s \<leftarrow> nb modus leave, path_s \<leftarrow> paths]"

definition simple_round ::
  "(bool \<Rightarrow> 'a \<Rightarrow> 'a list) \<Rightarrow> bool \<Rightarrow> 'a tree \<Rightarrow> 'a tree \<Rightarrow> 'a path list \<times> 'a tree" where
  "simple_round nb modus tree_source tree_target =
     fold (simple_step modus tree_target) (simple_work nb modus tree_source) ([], [])"

fun simple_rounds ::
  "(bool \<Rightarrow> 'a \<Rightarrow> 'a list) \<Rightarrow> nat \<Rightarrow> 'a tree \<times> 'a tree \<Rightarrow> 'a path list" where
  "simple_rounds nb 0 tree = []"
| "simple_rounds nb (Suc k) tree =
     (let modus = length (snd tree) < length (fst tree);
          r = simple_round nb modus (sel modus tree) (sel (\<not> modus) tree)
      in fst r @ simple_rounds nb k (upd modus (snd r) tree))"

definition priv_bidirectional_all_simple_paths ::
  "'a graph \<Rightarrow> 'a \<Rightarrow> 'a \<Rightarrow> int \<Rightarrow> 'a generator" where
  "priv_bidirectional_all_simple_paths G source target cutoff =
     (if cutoff < 1 then ([], None)
      else (simple_rounds (neighbors G) (nat cutoff)
              ([(source, [[source]])], [(target, [[target]])]), None))"

definition priv_bidirectional_all_simple_paths_multi ::
  "'a graph \<Rightarrow> 'a \<Rightarrow> 'a \<Rightarrow> int \<Rightarrow> 'a generator" where
  "priv_bidirectional_all_simple_paths_multi G source target cutoff =
     (if cutoff < 1 then ([], None)
      else (simple_rounds (neighbors_multi G) (nat cutoff)
              ([(source, [[source]])], [(target, [[target]])]), None))"

definition bidirectional_all_simple_paths ::
  "('a \<Rightarrow> nat option) \<Rightarrow> 'a graph \<Rightarrow> 'a \<Rightarrow> 'a \<Rightarrow> int option \<Rightarrow>
   error + 'a generator" where
  "bidirectional_all_simple_paths tuple_len G source target cutoff =
     (if \<not> contains G source then Inl (node_error tuple_len source)
      else if \<not> contains G target then Inl (node_error tuple_len target)
      else let cutoff = (case cutoff of None \<Rightarrow> len G - 1 | Some c \<Rightarrow> c) in
        if g_multigraph G
        then Inr (priv_bidirectional_all_simple_paths_multi G source target cutoff)
        else Inr (priv_bidirectional_all_simple_paths G source target cutoff))"

section \<open>The all-shortest-paths engine\<close>

text \<open>
  The simple-graph variant keeps each side's tree as a set of paths and, per side, the set
  \<^verbatim>\<open>nodes\<close> of every node that ended a path of that side. The state of the loop body, for
  one path \<^verbatim>\<open>path_s\<close> and one neighbour \<open>s\<close> of its last node, is the yields so far,
  \<^verbatim>\<open>found\<close>, \<^verbatim>\<open>nodes_source\<close> and \<^verbatim>\<open>temp_tree\<close>.
\<close>

definition shortest_step ::
  "bool \<Rightarrow> 'a path list \<Rightarrow> 'a list \<Rightarrow> 'a path \<times> 'a \<Rightarrow>
   'a path list \<times> bool \<times> 'a list \<times> 'a path list \<Rightarrow>
   'a path list \<times> bool \<times> 'a list \<times> 'a path list" where
  "shortest_step modus tree_target nodes_target ps acc =
     (let path_s = fst ps; s = snd ps;
          ys = fst acc; found = fst (snd acc);
          nodes_source = fst (snd (snd acc)); temp_tree = snd (snd (snd acc)) in
      if s \<notin> set path_s then
        (let ms = (if s \<in> set nodes_target
                   then [stitch modus path_s path_t. path_t \<leftarrow> tree_target,
                           s = last path_t, set path_t \<inter> set path_s = {}]
                   else [])
         in (ys @ ms, found \<or> ms \<noteq> [], List.insert s nodes_source,
             List.insert (path_s @ [s]) temp_tree))
      else acc)"

text \<open>The multigraph variant keeps the trees as lists and has no \<^verbatim>\<open>nodes\<close> sets.\<close>

definition shortest_step_multi ::
  "bool \<Rightarrow> 'a path list \<Rightarrow> 'a path \<times> 'a \<Rightarrow>
   'a path list \<times> bool \<times> 'a path list \<Rightarrow> 'a path list \<times> bool \<times> 'a path list" where
  "shortest_step_multi modus tree_target ps acc =
     (let path_s = fst ps; s = snd ps;
          ys = fst acc; found = fst (snd acc); temp_tree = snd (snd acc) in
      if s \<notin> set path_s then
        (let ms = [stitch modus path_s path_t. path_t \<leftarrow> tree_target,
                     s = last path_t, set path_t \<inter> set path_s = {}]
         in (ys @ ms, found \<or> ms \<noteq> [], temp_tree @ [path_s @ [s]]))
      else acc)"

text \<open>
  The state of the \<^verbatim>\<open>while\<close> loop: the two trees, the two \<^verbatim>\<open>nodes\<close> sets (left untouched by
  the multigraph variant, which has none) and \<^verbatim>\<open>found\<close>. One iteration of the loop body
  returns what it yields and the next state. The two outer loops visit the pairs of a path
  of the expanded side and a neighbour of its last node in the order of \<open>shortest_work\<close>.
\<close>

type_synonym 'a sh_state = "('a path list \<times> 'a path list) \<times> ('a list \<times> 'a list) \<times> bool"

definition shortest_work ::
  "(bool \<Rightarrow> 'a \<Rightarrow> 'a list) \<Rightarrow> bool \<Rightarrow> 'a path list \<Rightarrow> ('a path \<times> 'a) list" where
  "shortest_work nb modus tree_source =
     [(path_s, s). path_s \<leftarrow> tree_source, s \<leftarrow> nb modus (last path_s)]"

definition shortest_round ::
  "(bool \<Rightarrow> 'a \<Rightarrow> 'a list) \<Rightarrow> bool \<Rightarrow> 'a sh_state \<Rightarrow> 'a path list \<times> 'a sh_state" where
  "shortest_round nb multi st =
     (let tree = fst st; nodes = fst (snd st); found = snd (snd st);
          modus = length (snd tree) < length (fst tree);
          tree_source = sel modus tree;
          tree_target = sel (\<not> modus) tree;
          nodes_source = sel modus nodes;
          nodes_target = sel (\<not> modus) nodes;
          work = shortest_work nb modus tree_source
      in if multi then
           (let r = fold (shortest_step_multi modus tree_target) work ([], found, [])
            in (fst r, upd modus (snd (snd r)) tree, nodes, fst (snd r)))
         else
           (let r = fold (shortest_step modus tree_target nodes_target) work
                      ([], found, nodes_source, [])
            in (fst r, upd modus (snd (snd (snd r))) tree,
                upd modus (fst (snd (snd r))) nodes, fst (snd r))))"

subsection \<open>What one round computes\<close>

text \<open>
  The contribution of one pair of the work list: the stitched paths it yields, the path it
  adds to \<^verbatim>\<open>temp_tree\<close> and the node it adds to \<^verbatim>\<open>nodes_source\<close>.
\<close>

definition meets :: "bool \<Rightarrow> 'a path list \<Rightarrow> 'a path \<times> 'a \<Rightarrow> 'a path list" where
  "meets modus tree_target ps =
     (if snd ps \<notin> set (fst ps)
      then [stitch modus (fst ps) path_t. path_t \<leftarrow> tree_target,
              snd ps = last path_t, set path_t \<inter> set (fst ps) = {}]
      else [])"

definition meets_seen :: "bool \<Rightarrow> 'a path list \<Rightarrow> 'a list \<Rightarrow> 'a path \<times> 'a \<Rightarrow> 'a path list" where
  "meets_seen modus tree_target nodes_target ps =
     (if snd ps \<in> set nodes_target then meets modus tree_target ps else [])"

definition extensions :: "('a path \<times> 'a) list \<Rightarrow> 'a path list" where
  "extensions work = [fst ps @ [snd ps]. ps \<leftarrow> work, snd ps \<notin> set (fst ps)]"

definition admitted :: "('a path \<times> 'a) list \<Rightarrow> 'a list" where
  "admitted work = [snd ps. ps \<leftarrow> work, snd ps \<notin> set (fst ps)]"

lemma shortest_step_multi_eq:
  "shortest_step_multi modus tt ps (ys, found, temp) =
     (ys @ meets modus tt ps, found \<or> meets modus tt ps \<noteq> [], temp @ extensions [ps])"
  by (simp add: shortest_step_multi_def meets_def extensions_def Let_def)

lemma extensions_Cons: "extensions (ps # work) = extensions [ps] @ extensions work"
  by (simp add: extensions_def)

lemma fold_shortest_step_multi:
  "fold (shortest_step_multi modus tt) work (ys, found, temp) =
     (ys @ concat (map (meets modus tt) work),
      found \<or> concat (map (meets modus tt) work) \<noteq> [],
      temp @ extensions work)"
proof (induction work arbitrary: ys found temp)
  case Nil
  show ?case by (simp add: extensions_def)
next
  case (Cons ps work)
  have "fold (shortest_step_multi modus tt) (ps # work) (ys, found, temp) =
        fold (shortest_step_multi modus tt) work
          (ys @ meets modus tt ps, found \<or> meets modus tt ps \<noteq> [], temp @ extensions [ps])"
    by (simp only: fold_simps shortest_step_multi_eq)
  also have "\<dots> = ((ys @ meets modus tt ps) @ concat (map (meets modus tt) work),
      (found \<or> meets modus tt ps \<noteq> []) \<or> concat (map (meets modus tt) work) \<noteq> [],
      (temp @ extensions [ps]) @ extensions work)"
    by (rule Cons.IH)
  also have "\<dots> = (ys @ concat (map (meets modus tt) (ps # work)),
      found \<or> concat (map (meets modus tt) (ps # work)) \<noteq> [],
      temp @ extensions (ps # work))"
    by (simp add: extensions_Cons[of ps work])
  finally show ?case .
qed

lemma meets_unseen:
  assumes "last ` set tt \<subseteq> set nt" "snd ps \<notin> set nt"
  shows "meets modus tt ps = []"
proof -
  have "snd ps \<noteq> last path_t" if "path_t \<in> set tt" for path_t
    using assms that by blast
  then show ?thesis
    by (simp add: meets_def)
qed

lemma meets_seen_eq:
  "last ` set tt \<subseteq> set nt \<Longrightarrow> meets_seen modus tt nt ps = meets modus tt ps"
  using meets_unseen[of tt nt ps modus] by (simp add: meets_seen_def)

lemma shortest_step_eq:
  "shortest_step modus tt nt ps (ys, found, ns, temp) =
     (ys @ meets_seen modus tt nt ps, found \<or> meets_seen modus tt nt ps \<noteq> [],
      List.union (admitted [ps]) ns, List.union (extensions [ps]) temp)"
  by (simp add: shortest_step_def meets_seen_def meets_def extensions_def admitted_def Let_def
      List.union_def)

lemma admitted_Cons: "admitted (ps # work) = admitted [ps] @ admitted work"
  by (simp add: admitted_def)

lemma union_append: "List.union (xs @ ys) zs = List.union ys (List.union xs zs)"
  by (simp add: List.union_def)

lemma fold_shortest_step:
  "fold (shortest_step modus tt nt) work (ys, found, ns, temp) =
     (ys @ concat (map (meets_seen modus tt nt) work),
      found \<or> concat (map (meets_seen modus tt nt) work) \<noteq> [],
      List.union (admitted work) ns,
      List.union (extensions work) temp)"
proof (induction work arbitrary: ys found ns temp)
  case Nil
  show ?case by (simp add: extensions_def admitted_def List.union_def)
next
  case (Cons ps work)
  have "fold (shortest_step modus tt nt) (ps # work) (ys, found, ns, temp) =
        fold (shortest_step modus tt nt) work
          (ys @ meets_seen modus tt nt ps, found \<or> meets_seen modus tt nt ps \<noteq> [],
           List.union (admitted [ps]) ns, List.union (extensions [ps]) temp)"
    by (simp only: fold_simps shortest_step_eq)
  also have "\<dots> = ((ys @ meets_seen modus tt nt ps) @ concat (map (meets_seen modus tt nt) work),
      (found \<or> meets_seen modus tt nt ps \<noteq> []) \<or> concat (map (meets_seen modus tt nt) work) \<noteq> [],
      List.union (admitted work) (List.union (admitted [ps]) ns),
      List.union (extensions work) (List.union (extensions [ps]) temp))"
    by (rule Cons.IH)
  also have "\<dots> = (ys @ concat (map (meets_seen modus tt nt) (ps # work)),
      found \<or> concat (map (meets_seen modus tt nt) (ps # work)) \<noteq> [],
      List.union (admitted (ps # work)) ns,
      List.union (extensions (ps # work)) temp)"
    by (simp add: extensions_Cons[of ps work] admitted_Cons[of ps work] union_append)
  finally show ?case .
qed

text \<open>The round, in closed form, for each variant.\<close>

lemma shortest_round_multi:
  "shortest_round nb True (tree, nodes, found) =
     (let modus = length (snd tree) < length (fst tree);
          work = shortest_work nb modus (sel modus tree);
          ys = concat (map (meets modus (sel (\<not> modus) tree)) work)
      in (ys, upd modus (extensions work) tree, nodes, found \<or> ys \<noteq> []))"
  by (simp add: shortest_round_def Let_def fold_shortest_step_multi)

lemma shortest_round_simple:
  "shortest_round nb False (tree, nodes, found) =
     (let modus = length (snd tree) < length (fst tree);
          work = shortest_work nb modus (sel modus tree);
          ys = concat (map (meets_seen modus (sel (\<not> modus) tree) (sel (\<not> modus) nodes)) work)
      in (ys, upd modus (List.union (extensions work) []) tree,
          upd modus (List.union (admitted work) (sel modus nodes)) nodes, found \<or> ys \<noteq> []))"
  by (simp add: shortest_round_def Let_def fold_shortest_step)

subsection \<open>The loop and its termination\<close>

text \<open>
  Every path of a tree is extended by a node outside it, and all nodes come from the finite
  graph: the room left in the longest-lived path of each side bounds the number of rounds.
\<close>

definition path_room :: "'a graph \<Rightarrow> 'a path \<Rightarrow> nat" where
  "path_room G p = card (verts G - set p)"

definition tree_room :: "'a graph \<Rightarrow> 'a path list \<Rightarrow> nat" where
  "tree_room G tree = Max (insert 0 ((\<lambda>p. Suc (path_room G p)) ` set tree))"

definition sh_measure :: "'a graph \<Rightarrow> 'a sh_state \<Rightarrow> nat" where
  "sh_measure G st = tree_room G (fst (fst st)) + tree_room G (snd (fst st))"

lemma tree_room_less:
  assumes "\<And>p. p \<in> set tree \<Longrightarrow> path_room G p < n"
  shows "tree_room G tree \<le> n"
  unfolding tree_room_def using assms by (auto simp: Suc_le_eq)

lemma tree_room_mem: "p \<in> set tree \<Longrightarrow> Suc (path_room G p) \<le> tree_room G tree"
  unfolding tree_room_def by (intro Max_ge) auto

lemma tree_room_cong: "set t = set t' \<Longrightarrow> tree_room G t = tree_room G t'"
  by (simp add: tree_room_def)

lemma extensions_iff:
  "q \<in> set (extensions work) \<longleftrightarrow> (\<exists>p s. (p, s) \<in> set work \<and> s \<notin> set p \<and> q = p @ [s])"
  by (force simp: extensions_def)

lemma shortest_work_iff:
  "(p, s) \<in> set (shortest_work nb modus ts) \<longleftrightarrow> p \<in> set ts \<and> s \<in> set (nb modus (last p))"
  by (auto simp: shortest_work_def)

lemma path_room_extend:
  assumes "s \<in> verts G" "s \<notin> set p"
  shows "path_room G (p @ [s]) < path_room G p"
proof -
  have "verts G - set (p @ [s]) \<subset> verts G - set p"
    using assms by auto
  then show ?thesis
    unfolding path_room_def by (intro psubset_card_mono) (auto simp: finite_verts)
qed

lemma tree_room_extensions:
  assumes "ts \<noteq> []"
  shows "tree_room G (extensions (shortest_work (resolver G multi) modus ts)) < tree_room G ts"
proof -
  obtain p0 where p0: "p0 \<in> set ts" using assms by (cases ts) auto
  have pos: "0 < tree_room G ts"
    using tree_room_mem[OF p0, of G] by simp
  have "path_room G q < tree_room G ts - 1"
    if "q \<in> set (extensions (shortest_work (resolver G multi) modus ts))" for q
  proof -
    from that obtain p s where ps: "p \<in> set ts" "s \<in> set (resolver G multi modus (last p))"
      "s \<notin> set p" "q = p @ [s]"
      by (auto simp: extensions_iff shortest_work_iff)
    have "s \<in> verts G" using ps(2) resolver_verts[of G multi modus "last p"] by auto
    then have "path_room G q < path_room G p"
      using ps(3,4) path_room_extend[of s G p] by simp
    moreover have "Suc (path_room G p) \<le> tree_room G ts"
      using tree_room_mem[OF ps(1)] .
    ultimately show ?thesis by linarith
  qed
  then have "tree_room G (extensions (shortest_work (resolver G multi) modus ts)) \<le> tree_room G ts - 1"
    by (rule tree_room_less)
  with pos show ?thesis by linarith
qed

lemma shortest_round_measure:
  assumes "fst (fst st) \<noteq> []" "snd (fst st) \<noteq> []"
  shows "sh_measure G (snd (shortest_round (resolver G multi) multi st)) < sh_measure G st"
proof -
  obtain t0 t1 nodes found where st: "st = ((t0, t1), nodes, found)"
    by (metis surj_pair)
  define modus where "modus = (length t1 < length t0)"
  define E where "E = extensions (shortest_work (resolver G multi) modus (sel modus (t0, t1)))"
  have ne: "sel modus (t0, t1) \<noteq> []"
    using assms by (simp add: st sel_def)
  have lt: "tree_room G E < tree_room G (sel modus (t0, t1))"
    unfolding E_def by (rule tree_room_extensions[OF ne])
  have E': "tree_room G (List.union E []) = tree_room G E"
    by (rule tree_room_cong) simp
  have "fst (snd (shortest_round (resolver G multi) multi st)) =
        upd modus (if multi then E else List.union E []) (t0, t1)"
    by (cases multi) (simp_all add: st shortest_round_multi shortest_round_simple Let_def modus_def E_def)
  then show ?thesis
    using lt E' by (cases modus; cases multi) (simp_all add: sh_measure_def st upd_def sel_def)
qed

text \<open>
  The \<^verbatim>\<open>while not found and tree[0] and tree[1]\<close> loop: what it yields, and the state in
  which it is left.
\<close>

function shortest_loop :: "'a graph \<Rightarrow> bool \<Rightarrow> 'a sh_state \<Rightarrow> 'a path list \<times> 'a sh_state" where
  "shortest_loop G multi st =
     (if \<not> snd (snd st) \<and> fst (fst st) \<noteq> [] \<and> snd (fst st) \<noteq> [] then
        (let r = shortest_round (resolver G multi) multi st;
             g = shortest_loop G multi (snd r)
         in (fst r @ fst g, snd g))
      else ([], st))"
  by pat_completeness auto
termination
  by (relation "measure (\<lambda>(G, multi, st). sh_measure G st)")
     (auto intro: shortest_round_measure)

declare shortest_loop.simps [simp del]

text \<open>After the loop: \<^verbatim>\<open>if not found: raise nx.NetworkXNoPath(...)\<close>.\<close>

definition shortest_finish :: "'a path list \<times> 'a sh_state \<Rightarrow> 'a generator" where
  "shortest_finish r = (fst r, if \<not> snd (snd (snd r)) then Some NoPath else None)"

definition priv_bidirectional_all_shortest_paths :: "'a graph \<Rightarrow> 'a \<Rightarrow> 'a \<Rightarrow> 'a generator" where
  "priv_bidirectional_all_shortest_paths G source target =
     shortest_finish
       (shortest_loop G False (([[source]], [[target]]), ([source], [target]), False))"

definition priv_bidirectional_all_shortest_paths_multi ::
  "'a graph \<Rightarrow> 'a \<Rightarrow> 'a \<Rightarrow> 'a generator" where
  "priv_bidirectional_all_shortest_paths_multi G source target =
     shortest_finish (shortest_loop G True (([[source]], [[target]]), ([], []), False))"

definition bidirectional_all_shortest_paths ::
  "('a \<Rightarrow> nat option) \<Rightarrow> 'a graph \<Rightarrow> 'a \<Rightarrow> 'a \<Rightarrow> error + 'a generator" where
  "bidirectional_all_shortest_paths tuple_len G source target =
     (if \<not> contains G source then Inl (node_error tuple_len source)
      else if \<not> contains G target then Inl (node_error tuple_len target)
      else if g_multigraph G then Inr (priv_bidirectional_all_shortest_paths_multi G source target)
      else Inr (priv_bidirectional_all_shortest_paths G source target))"

section \<open>Paths of a graph\<close>

text \<open>
  The reference notions. \<open>arc G u v\<close>: the graph has an edge from \<open>u\<close> to \<open>v\<close> (in either
  orientation when the graph is undirected). \<open>nbrel nb modus\<close> is the step relation a
  neighbour resolver induces on one side. \<open>grow R a d\<close> is the set of all \<open>d\<close>-edge paths
  without a repeated node that start at \<open>a\<close> and follow \<open>R\<close>.
\<close>

definition arc :: "'a graph \<Rightarrow> 'a \<Rightarrow> 'a \<Rightarrow> bool" where
  "arc G u v \<longleftrightarrow> (u, v) \<in> set (g_edges G) \<or> (\<not> g_directed G \<and> (v, u) \<in> set (g_edges G))"

definition nbrel :: "(bool \<Rightarrow> 'a \<Rightarrow> 'a list) \<Rightarrow> bool \<Rightarrow> 'a \<Rightarrow> 'a \<Rightarrow> bool" where
  "nbrel nb modus u v \<longleftrightarrow> v \<in> set (nb modus u)"

definition grow :: "('a \<Rightarrow> 'a \<Rightarrow> bool) \<Rightarrow> 'a \<Rightarrow> nat \<Rightarrow> 'a path set" where
  "grow R a d = {p. p \<noteq> [] \<and> hd p = a \<and> distinct p \<and> successively R p \<and> length p = Suc d}"

lemma grow_0: "grow R a 0 = {[a]}"
proof -
  have "p \<in> grow R a 0 \<longleftrightarrow> p = [a]" for p
    by (cases p) (auto simp: grow_def)
  then show ?thesis by blast
qed

lemma grow_extend:
  assumes "p \<in> grow R a d" "R (last p) s" "s \<notin> set p"
  shows "p @ [s] \<in> grow R a (Suc d)"
  using assms by (simp add: grow_def successively_append_iff)

lemma grow_shrink:
  assumes "q \<in> grow R a (Suc d)"
  shows "butlast q \<in> grow R a d \<and> R (last (butlast q)) (last q) \<and> last q \<notin> set (butlast q)"
proof -
  from assms have "q \<noteq> []" by (simp add: grow_def)
  then obtain p x where qp: "q = p @ [x]" by (cases q rule: rev_cases) auto
  from assms have "length p = Suc d" by (simp add: grow_def qp)
  then have pne: "p \<noteq> []" by auto
  from assms pne have "hd p = a \<and> distinct p \<and> x \<notin> set p \<and> successively R p \<and> R (last p) x"
    by (simp add: grow_def qp successively_append_iff)
  with pne \<open>length p = Suc d\<close> show ?thesis
    by (simp add: grow_def qp)
qed

lemma grow_Suc_iff:
  "q \<in> grow R a (Suc d) \<longleftrightarrow> (\<exists>p s. q = p @ [s] \<and> p \<in> grow R a d \<and> R (last p) s \<and> s \<notin> set p)"
proof
  assume q: "q \<in> grow R a (Suc d)"
  then have "q \<noteq> []" by (simp add: grow_def)
  then have "q = butlast q @ [last q]" by simp
  moreover note grow_shrink[OF q]
  ultimately show "\<exists>p s. q = p @ [s] \<and> p \<in> grow R a d \<and> R (last p) s \<and> s \<notin> set p"
    by (intro exI[of _ "butlast q"] exI[of _ "last q"]) simp
next
  assume "\<exists>p s. q = p @ [s] \<and> p \<in> grow R a d \<and> R (last p) s \<and> s \<notin> set p"
  then obtain p s where "q = p @ [s]" "p \<in> grow R a d" "R (last p) s" "s \<notin> set p"
    by (elim exE conjE)
  then show "q \<in> grow R a (Suc d)"
    using grow_extend[of p R a d s] by simp
qed

lemma extensions_grow:
  assumes "set ts = grow (nbrel nb modus) a d"
  shows "set (extensions (shortest_work nb modus ts)) = grow (nbrel nb modus) a (Suc d)"
proof (rule set_eqI)
  fix q
  have "q \<in> set (extensions (shortest_work nb modus ts)) \<longleftrightarrow>
        (\<exists>p s. p \<in> set ts \<and> s \<in> set (nb modus (last p)) \<and> s \<notin> set p \<and> q = p @ [s])"
    by (simp add: extensions_iff shortest_work_iff)
  also have "\<dots> \<longleftrightarrow> (\<exists>p s. q = p @ [s] \<and> p \<in> grow (nbrel nb modus) a d
        \<and> nbrel nb modus (last p) s \<and> s \<notin> set p)"
    by (simp only: assms nbrel_def) (intro iffI; elim exE conjE; intro exI conjI; assumption)
  also have "\<dots> \<longleftrightarrow> q \<in> grow (nbrel nb modus) a (Suc d)"
    by (simp only: grow_Suc_iff)
  finally show "q \<in> set (extensions (shortest_work nb modus ts)) \<longleftrightarrow>
      q \<in> grow (nbrel nb modus) a (Suc d)" .
qed

text \<open>
  \<open>spaths R a b n\<close>: the paths from \<open>a\<close> to \<open>b\<close> along \<open>R\<close> with \<open>n\<close> nodes, none of them
  repeated. \<open>joins R T0 T1\<close>: what stitching a source-side path to a target-side path gives,
  over all pairs whose last nodes are linked by \<open>R\<close> and which share no node.
\<close>

definition spaths :: "('a \<Rightarrow> 'a \<Rightarrow> bool) \<Rightarrow> 'a \<Rightarrow> 'a \<Rightarrow> nat \<Rightarrow> 'a path set" where
  "spaths R a b n =
     {q. q \<noteq> [] \<and> hd q = a \<and> last q = b \<and> distinct q \<and> successively R q \<and> length q = n}"

definition joins :: "('a \<Rightarrow> 'a \<Rightarrow> bool) \<Rightarrow> 'a path set \<Rightarrow> 'a path set \<Rightarrow> 'a path set" where
  "joins R T0 T1 =
     {p0 @ rev p1 | p0 p1. p0 \<in> T0 \<and> p1 \<in> T1 \<and> R (last p0) (last p1) \<and> set p0 \<inter> set p1 = {}}"

lemma join_in_spaths:
  assumes "p0 \<in> grow R a da" "p1 \<in> grow (\<lambda>x y. R y x) b db"
    "R (last p0) (last p1)" "set p0 \<inter> set p1 = {}"
  shows "p0 @ rev p1 \<in> spaths R a b (da + db + 2)"
  using assms
  by (simp add: grow_def spaths_def successively_append_iff last_rev hd_rev)

lemma spaths_split:
  assumes "q \<in> spaths R a b (da + db + 2)"
  shows "take (Suc da) q \<in> grow R a da \<and> rev (drop (Suc da) q) \<in> grow (\<lambda>x y. R y x) b db
       \<and> R (last (take (Suc da) q)) (last (rev (drop (Suc da) q)))
       \<and> set (take (Suc da) q) \<inter> set (rev (drop (Suc da) q)) = {}"
proof -
  define p0 where "p0 = take (Suc da) q"
  define r where "r = drop (Suc da) q"
  have q: "q = p0 @ r" by (simp add: p0_def r_def)
  from assms have len: "length q = da + db + 2" by (simp add: spaths_def)
  have l0: "length p0 = Suc da" and lr: "length r = Suc db"
    using len by (simp_all add: p0_def r_def)
  then have ne: "p0 \<noteq> []" "r \<noteq> []" by auto
  from assms have "hd (p0 @ r) = a" "last (p0 @ r) = b" "distinct (p0 @ r)" "successively R (p0 @ r)"
    by (simp_all add: spaths_def q)
  with ne l0 lr show ?thesis
    unfolding p0_def[symmetric] r_def[symmetric]
    by (simp add: grow_def successively_append_iff last_rev hd_rev)
qed

lemma joins_grow:
  "joins R (grow R a da) (grow (\<lambda>x y. R y x) b db) = spaths R a b (da + db + 2)"
proof (rule set_eqI, rule iffI)
  fix q
  assume "q \<in> joins R (grow R a da) (grow (\<lambda>x y. R y x) b db)"
  then obtain p0 p1 where "q = p0 @ rev p1" "p0 \<in> grow R a da" "p1 \<in> grow (\<lambda>x y. R y x) b db"
    "R (last p0) (last p1)" "set p0 \<inter> set p1 = {}"
    unfolding joins_def by (elim CollectE exE conjE)
  then show "q \<in> spaths R a b (da + db + 2)"
    using join_in_spaths[of p0 R a da p1 b db] by simp
next
  fix q
  assume q: "q \<in> spaths R a b (da + db + 2)"
  have "q = take (Suc da) q @ rev (rev (drop (Suc da) q))" by simp
  with spaths_split[OF q] show "q \<in> joins R (grow R a da) (grow (\<lambda>x y. R y x) b db)"
    unfolding joins_def
    by (intro CollectI exI[of _ "take (Suc da) q"] exI[of _ "rev (drop (Suc da) q)"]) simp
qed

lemma meets_iff:
  "q \<in> set (meets modus tt (p_s, s)) \<longleftrightarrow>
     s \<notin> set p_s \<and> (\<exists>p_t \<in> set tt. s = last p_t \<and> set p_t \<inter> set p_s = {}
        \<and> q = stitch modus p_s p_t)"
  by (auto simp: meets_def)

lemma round_yields_iff:
  "q \<in> set (concat (map (meets modus tt) (shortest_work nb modus ts))) \<longleftrightarrow>
     (\<exists>p_s p_t. p_s \<in> set ts \<and> p_t \<in> set tt \<and> last p_t \<in> set (nb modus (last p_s))
        \<and> last p_t \<notin> set p_s \<and> set p_t \<inter> set p_s = {} \<and> q = stitch modus p_s p_t)"
proof -
  have "q \<in> set (concat (map (meets modus tt) (shortest_work nb modus ts))) \<longleftrightarrow>
        (\<exists>p_s s. (p_s, s) \<in> set (shortest_work nb modus ts) \<and> q \<in> set (meets modus tt (p_s, s)))"
    by auto
  also have "\<dots> \<longleftrightarrow> (\<exists>p_s s. p_s \<in> set ts \<and> s \<in> set (nb modus (last p_s)) \<and> s \<notin> set p_s \<and>
        (\<exists>p_t \<in> set tt. s = last p_t \<and> set p_t \<inter> set p_s = {} \<and> q = stitch modus p_s p_t))"
    by (simp only: shortest_work_iff meets_iff conj_assoc)
  also have "\<dots> \<longleftrightarrow> (\<exists>p_s p_t. p_s \<in> set ts \<and> p_t \<in> set tt \<and> last p_t \<in> set (nb modus (last p_s))
        \<and> last p_t \<notin> set p_s \<and> set p_t \<inter> set p_s = {} \<and> q = stitch modus p_s p_t)"
    by (auto simp: Bex_def)
  finally show ?thesis .
qed

text \<open>A resolver that follows a relation forwards on the source side and backwards on the
  target side.\<close>

definition follows :: "(bool \<Rightarrow> 'a \<Rightarrow> 'a list) \<Rightarrow> ('a \<Rightarrow> 'a \<Rightarrow> bool) \<Rightarrow> bool" where
  "follows nb R \<longleftrightarrow> (\<forall>u v. (v \<in> set (nb False u) \<longleftrightarrow> R u v) \<and> (v \<in> set (nb True u) \<longleftrightarrow> R v u))"

lemma round_yields_joins:
  assumes "follows nb R" "[] \<notin> set (fst tree)" "[] \<notin> set (snd tree)"
  shows "set (concat (map (meets modus (sel (\<not> modus) tree)) (shortest_work nb modus (sel modus tree))))
       = joins R (set (fst tree)) (set (snd tree))"
proof (rule set_eqI)
  fix q
  have ne: "last p \<in> set p" if "p \<in> set (fst tree) \<or> p \<in> set (snd tree)" for p
    using that assms(2,3) by (cases p) auto
  show "q \<in> set (concat (map (meets modus (sel (\<not> modus) tree)) (shortest_work nb modus (sel modus tree))))
       \<longleftrightarrow> q \<in> joins R (set (fst tree)) (set (snd tree))"
  proof (cases modus)
    case False
    have "q \<in> set (concat (map (meets False (snd tree)) (shortest_work nb False (fst tree)))) \<longleftrightarrow>
      (\<exists>p0 p1. p0 \<in> set (fst tree) \<and> p1 \<in> set (snd tree) \<and> R (last p0) (last p1)
         \<and> last p1 \<notin> set p0 \<and> set p1 \<inter> set p0 = {} \<and> q = p0 @ rev p1)"
      using assms(1) unfolding round_yields_iff follows_def by (simp add: stitch_def)
    also have "\<dots> \<longleftrightarrow> q \<in> joins R (set (fst tree)) (set (snd tree))"
      unfolding joins_def using ne by (auto simp: Int_commute) 
    finally show ?thesis using False by (simp add: sel_def)
  next
    case True
    have "q \<in> set (concat (map (meets True (fst tree)) (shortest_work nb True (snd tree)))) \<longleftrightarrow>
      (\<exists>p1 p0. p1 \<in> set (snd tree) \<and> p0 \<in> set (fst tree) \<and> R (last p0) (last p1)
         \<and> last p0 \<notin> set p1 \<and> set p0 \<inter> set p1 = {} \<and> q = p0 @ rev p1)"
      using assms(1) unfolding round_yields_iff follows_def by (simp add: stitch_def)
    also have "\<dots> \<longleftrightarrow> q \<in> joins R (set (fst tree)) (set (snd tree))"
      unfolding joins_def using ne by auto
    finally show ?thesis using True by (simp add: sel_def)
  qed
qed

section \<open>Rounds of the all-shortest-paths engine\<close>

text \<open>
  \<open>nodes_ok\<close>: in the simple-graph variant the last node of every path of a side is in that
  side's \<^verbatim>\<open>nodes\<close> set, so the test \<^verbatim>\<open>s in nodes_target\<close> never hides a meeting.
  \<open>round_modus\<close>, \<open>round_ys\<close> and \<open>round_ext\<close> name the side a round expands, what the round
  yields and the paths it builds.
\<close>

definition nodes_ok :: "bool \<Rightarrow> 'a sh_state \<Rightarrow> bool" where
  "nodes_ok multi st \<longleftrightarrow>
     multi \<or> (last ` set (fst (fst st)) \<subseteq> set (fst (fst (snd st)))
            \<and> last ` set (snd (fst st)) \<subseteq> set (snd (fst (snd st))))"

definition round_modus :: "'a sh_state \<Rightarrow> bool" where
  "round_modus st = (length (snd (fst st)) < length (fst (fst st)))"

definition round_ys :: "(bool \<Rightarrow> 'a \<Rightarrow> 'a list) \<Rightarrow> 'a sh_state \<Rightarrow> 'a path list" where
  "round_ys nb st =
     concat (map (meets (round_modus st) (sel (\<not> round_modus st) (fst st)))
                 (shortest_work nb (round_modus st) (sel (round_modus st) (fst st))))"

definition round_ext :: "(bool \<Rightarrow> 'a \<Rightarrow> 'a list) \<Rightarrow> 'a sh_state \<Rightarrow> 'a path list" where
  "round_ext nb st =
     extensions (shortest_work nb (round_modus st) (sel (round_modus st) (fst st)))"

lemma admitted_eq: "admitted work = map last (extensions work)"
  by (simp add: admitted_def extensions_def map_concat comp_def) (induction work; simp)

lemma shortest_round_ys:
  assumes "nodes_ok multi st"
  shows "fst (shortest_round nb multi st) = round_ys nb st"
proof -
  obtain tree nodes found where st: "st = (tree, nodes, found)"
    by (cases st) auto
  show ?thesis
  proof (cases multi)
    case True
    then show ?thesis
      by (simp add: st shortest_round_multi Let_def round_ys_def round_modus_def)
  next
    case False
    with assms have "last ` set (sel (\<not> round_modus st) tree) \<subseteq> set (sel (\<not> round_modus st) nodes)"
      by (auto simp: nodes_ok_def st sel_def)
    then have "meets_seen (round_modus st) (sel (\<not> round_modus st) tree)
                 (sel (\<not> round_modus st) nodes) = meets (round_modus st) (sel (\<not> round_modus st) tree)"
      by (intro ext meets_seen_eq)
    with False show ?thesis
      by (simp add: st shortest_round_simple Let_def round_ys_def round_modus_def)
  qed
qed

lemma shortest_round_tree:
  "fst (snd (shortest_round nb multi st)) =
     upd (round_modus st) (if multi then round_ext nb st else List.union (round_ext nb st) [])
       (fst st)"
proof -
  obtain tree nodes found where st: "st = (tree, nodes, found)"
    by (cases st) auto
  show ?thesis
    by (cases multi)
       (simp_all add: st shortest_round_multi shortest_round_simple Let_def round_ext_def
          round_modus_def)
qed

lemma shortest_round_found:
  assumes "nodes_ok multi st"
  shows "snd (snd (snd (shortest_round nb multi st))) = (snd (snd st) \<or> round_ys nb st \<noteq> [])"
proof -
  obtain tree nodes found where st: "st = (tree, nodes, found)"
    by (cases st) auto
  have "snd (snd (snd (shortest_round nb multi st))) =
        (found \<or> fst (shortest_round nb multi st) \<noteq> [])"
    by (cases multi)
       (simp_all add: st shortest_round_multi shortest_round_simple Let_def)
  moreover have "fst (shortest_round nb multi st) = round_ys nb st"
    by (rule shortest_round_ys[OF assms])
  ultimately show ?thesis
    by (simp add: st)
qed

lemma shortest_round_nodes_ok:
  assumes "nodes_ok multi st"
  shows "nodes_ok multi (snd (shortest_round nb multi st))"
proof (cases multi)
  case True
  then show ?thesis by (simp add: nodes_ok_def)
next
  case False
  obtain tree nodes found where st: "st = (tree, nodes, found)"
    by (cases st) auto
  define modus where "modus = (length (snd tree) < length (fst tree))"
  define work where "work = shortest_work nb modus (sel modus tree)"
  have r: "snd (shortest_round nb False st) =
       (upd modus (List.union (extensions work) []) tree,
        upd modus (List.union (admitted work) (sel modus nodes)) nodes,
        found \<or> concat (map (meets_seen modus (sel (\<not> modus) tree) (sel (\<not> modus) nodes)) work) \<noteq> [])"
    by (simp add: st shortest_round_simple Let_def modus_def work_def)
  have "last ` set (List.union (extensions work) []) \<subseteq> set (List.union (admitted work) (sel modus nodes))"
    by (auto simp: admitted_eq)
  moreover have "last ` set (fst tree) \<subseteq> set (fst nodes)" "last ` set (snd tree) \<subseteq> set (snd nodes)"
    using assms False by (simp_all add: nodes_ok_def st)
  ultimately have "nodes_ok False (snd (shortest_round nb False st))"
    unfolding r by (cases modus) (auto simp: nodes_ok_def upd_def sel_def)
  with False show ?thesis by simp
qed

section \<open>Correctness of the all-shortest-paths loop\<close>

text \<open>
  The loop invariant: after \<open>d0\<close> expansions of the source side and \<open>d1\<close> of the target
  side, the source tree holds exactly the \<open>d0\<close>-edge paths without repeated node that leave
  the source, and the target tree the \<open>d1\<close>-edge ones that leave the target.
\<close>

definition sh_inv ::
  "(bool \<Rightarrow> 'a \<Rightarrow> 'a list) \<Rightarrow> bool \<Rightarrow> 'a \<Rightarrow> 'a \<Rightarrow> nat \<Rightarrow> nat \<Rightarrow> 'a sh_state \<Rightarrow> bool" where
  "sh_inv nb multi s t d0 d1 st \<longleftrightarrow>
     set (fst (fst st)) = grow (nbrel nb False) s d0
   \<and> set (snd (fst st)) = grow (nbrel nb True) t d1
   \<and> nodes_ok multi st"

lemma sh_inv_init:
  "sh_inv nb multi s t 0 0 (([[s]], [[t]]), (if multi then ([], []) else ([s], [t])), False)"
  by (simp add: sh_inv_def grow_0 nodes_ok_def)

lemma set_round_tree:
  "set (sel (round_modus st) (fst (snd (shortest_round nb multi st)))) = set (round_ext nb st)"
  "sel (\<not> round_modus st) (fst (snd (shortest_round nb multi st))) = sel (\<not> round_modus st) (fst st)"
  by (simp_all add: shortest_round_tree sel_def upd_def)

lemma sh_inv_step:
  assumes "sh_inv nb multi s t d0 d1 st"
  shows "sh_inv nb multi s t (if round_modus st then d0 else Suc d0)
           (if round_modus st then Suc d1 else d1) (snd (shortest_round nb multi st))"
proof -
  have ok: "nodes_ok multi (snd (shortest_round nb multi st))"
    by (rule shortest_round_nodes_ok) (use assms in \<open>simp add: sh_inv_def\<close>)
  show ?thesis
  proof (cases "round_modus st")
    case True
    have "set (round_ext nb st) = grow (nbrel nb True) t (Suc d1)"
      using assms True by (simp add: round_ext_def sel_def sh_inv_def extensions_grow)
    with set_round_tree[of st nb multi] assms ok True show ?thesis
      by (simp add: sh_inv_def sel_def)
  next
    case False
    have "set (round_ext nb st) = grow (nbrel nb False) s (Suc d0)"
      using assms False by (simp add: round_ext_def sel_def sh_inv_def extensions_grow)
    with set_round_tree[of st nb multi] assms ok False show ?thesis
      by (simp add: sh_inv_def sel_def)
  qed
qed

lemma follows_nbrel:
  assumes "follows nb R"
  shows "nbrel nb False = R" "nbrel nb True = (\<lambda>x y. R y x)"
  using assms by (auto simp: follows_def nbrel_def fun_eq_iff)

lemma grow_nonempty: "p \<in> grow R a d \<Longrightarrow> p \<noteq> []"
  by (simp add: grow_def)

lemma sh_round_spaths:
  assumes "sh_inv nb multi s t d0 d1 st" "follows nb R"
  shows "set (round_ys nb st) = spaths R s t (d0 + d1 + 2)"
proof -
  have t0: "set (fst (fst st)) = grow R s d0" and t1: "set (snd (fst st)) = grow (\<lambda>x y. R y x) t d1"
    using assms by (simp_all add: sh_inv_def follows_nbrel)
  have "[] \<notin> set (fst (fst st))" "[] \<notin> set (snd (fst st))"
    unfolding t0 t1 by (auto simp: grow_def)
  then have "set (round_ys nb st) = joins R (set (fst (fst st))) (set (snd (fst st)))"
    unfolding round_ys_def by (rule round_yields_joins[OF assms(2)])
  then show ?thesis
    by (simp add: t0 t1 joins_grow)
qed

lemma spaths_prefix:
  assumes "q \<in> spaths R a b n" "Suc d \<le> n"
  shows "take (Suc d) q \<in> grow R a d"
proof -
  from assms(1) have q: "q \<noteq> []" "hd q = a" "distinct q" "successively R q" "length q = n"
    by (simp_all add: spaths_def)
  have "successively R (take (Suc d) q @ drop (Suc d) q)" using q(4) by simp
  then have "successively R (take (Suc d) q)"
    unfolding successively_append_iff by simp
  with q assms(2) show ?thesis
    by (simp add: grow_def hd_take)
qed

lemma spaths_suffix:
  assumes "q \<in> spaths R a b n" "Suc d \<le> n"
  shows "rev (drop (n - Suc d) q) \<in> grow (\<lambda>x y. R y x) b d"
proof -
  from assms(1) have q: "q \<noteq> []" "last q = b" "distinct q" "successively R q" "length q = n"
    by (simp_all add: spaths_def)
  define r where "r = drop (n - Suc d) q"
  have lr: "length r = Suc d" using q(5) assms(2) by (simp add: r_def)
  then have rne: "r \<noteq> []" by auto
  have "successively R (take (n - Suc d) q @ r)" using q(4) by (simp add: r_def)
  then have "successively R r"
    unfolding successively_append_iff by simp
  moreover have "last r = b"
    using q(2,5) assms(2) by (simp add: r_def)
  moreover have "distinct r" using q(3) by (simp add: r_def)
  ultimately show ?thesis
    using lr rne unfolding r_def[symmetric] by (simp add: grow_def hd_rev)
qed

lemma grow_empty_spaths:
  assumes "grow R a d0 = {} \<or> grow (\<lambda>x y. R y x) b d1 = {}"
    and "\<forall>n \<le> d0 + d1 + 1. spaths R a b n = {}"
  shows "spaths R a b n = {}"
proof (rule ccontr)
  assume "spaths R a b n \<noteq> {}"
  then obtain q where q: "q \<in> spaths R a b n" by auto
  with assms(2) have n: "d0 + d1 + 1 < n" by (metis empty_iff not_le)
  from assms(1) show False
  proof
    assume "grow R a d0 = {}"
    moreover have "take (Suc d0) q \<in> grow R a d0"
      using spaths_prefix[OF q] n by simp
    ultimately show False by simp
  next
    assume "grow (\<lambda>x y. R y x) b d1 = {}"
    moreover have "rev (drop (n - Suc d1) q) \<in> grow (\<lambda>x y. R y x) b d1"
      using spaths_suffix[OF q] n by simp
    ultimately show False by simp
  qed
qed


lemma shortest_loop_stop:
  "snd (snd st) \<or> fst (fst st) = [] \<or> snd (fst st) = [] \<Longrightarrow> shortest_loop G multi st = ([], st)"
  by (subst shortest_loop.simps) auto

lemma shortest_loop_go:
  assumes "\<not> snd (snd st)" "fst (fst st) \<noteq> []" "snd (fst st) \<noteq> []"
  shows "shortest_loop G multi st =
     (fst (shortest_round (resolver G multi) multi st)
        @ fst (shortest_loop G multi (snd (shortest_round (resolver G multi) multi st))),
      snd (shortest_loop G multi (snd (shortest_round (resolver G multi) multi st))))"
  using assms by (subst shortest_loop.simps) (simp add: Let_def)

definition sh_result :: "('a \<Rightarrow> 'a \<Rightarrow> bool) \<Rightarrow> 'a \<Rightarrow> 'a \<Rightarrow> 'a path list \<times> 'a sh_state \<Rightarrow> bool" where
  "sh_result R s t g \<longleftrightarrow>
     ((\<forall>n. spaths R s t n = {}) \<and> fst g = [] \<and> \<not> snd (snd (snd g)))
   \<or> (\<exists>k. fst g \<noteq> [] \<and> set (fst g) = spaths R s t k \<and> (\<forall>n<k. spaths R s t n = {})
          \<and> snd (snd (snd g)))"

lemma shortest_loop_correct:
  "follows (resolver G multi) R \<Longrightarrow> sh_inv (resolver G multi) multi s t d0 d1 st \<Longrightarrow>
   \<not> snd (snd st) \<Longrightarrow> (\<forall>n \<le> d0 + d1 + 1. spaths R s t n = {}) \<Longrightarrow>
   sh_result R s t (shortest_loop G multi st)"
proof (induction G multi st arbitrary: d0 d1 rule: shortest_loop.induct)
  case (1 G multi st)
  define nb where "nb = resolver G multi"
  note fol = "1.prems"(1)[folded nb_def] and inv = "1.prems"(2)[folded nb_def]
  show ?case
  proof (cases "fst (fst st) \<noteq> [] \<and> snd (fst st) \<noteq> []")
    case False
    then have "grow R s d0 = {} \<or> grow (\<lambda>x y. R y x) t d1 = {}"
      using inv follows_nbrel[OF fol] by (auto simp: sh_inv_def)
    then have "\<forall>n. spaths R s t n = {}"
      using grow_empty_spaths[OF _ "1.prems"(4)] by blast
    moreover have "shortest_loop G multi st = ([], st)"
      using False by (intro shortest_loop_stop) auto
    ultimately show ?thesis
      using "1.prems"(3) by (simp add: sh_result_def)
  next
    case True
    define r where "r = shortest_round nb multi st"
    have ok: "nodes_ok multi st" using inv by (simp add: sh_inv_def)
    have ys: "fst r = round_ys nb st"
      unfolding r_def by (rule shortest_round_ys[OF ok])
    have found: "snd (snd (snd r)) = (round_ys nb st \<noteq> [])"
      unfolding r_def using shortest_round_found[OF ok, of nb] "1.prems"(3) by simp
    have sp: "set (round_ys nb st) = spaths R s t (d0 + d1 + 2)"
      by (rule sh_round_spaths[OF inv fol])
    have go: "shortest_loop G multi st =
        (fst r @ fst (shortest_loop G multi (snd r)), snd (shortest_loop G multi (snd r)))"
      unfolding r_def nb_def using True "1.prems"(3) by (intro shortest_loop_go) auto
    show ?thesis
    proof (cases "round_ys nb st = []")
      case False
      then have "shortest_loop G multi (snd r) = ([], snd r)"
        using found by (intro shortest_loop_stop) simp
      with go have g: "shortest_loop G multi st = (round_ys nb st, snd r)"
        by (simp add: ys)
      have "\<forall>n < d0 + d1 + 2. spaths R s t n = {}"
        using "1.prems"(4) by auto
      with False sp found show ?thesis
        unfolding sh_result_def g by (intro disjI2 exI[of _ "d0 + d1 + 2"]) simp
    next
      case empty: True
      define d0' where "d0' = (if round_modus st then d0 else Suc d0)"
      define d1' where "d1' = (if round_modus st then Suc d1 else d1)"
      have inv': "sh_inv (resolver G multi) multi s t d0' d1' (snd r)"
        unfolding r_def d0'_def d1'_def nb_def[symmetric] by (rule sh_inv_step[OF inv])
      have sum: "d0' + d1' + 1 = d0 + d1 + 2"
        by (simp add: d0'_def d1'_def)
      have none: "\<forall>n \<le> d0' + d1' + 1. spaths R s t n = {}"
      proof (intro allI impI)
        fix n assume "n \<le> d0' + d1' + 1"
        then have "n \<le> d0 + d1 + 1 \<or> n = d0 + d1 + 2" using sum by linarith
        then show "spaths R s t n = {}"
          using "1.prems"(4) sp empty by auto
      qed
      have nf: "\<not> snd (snd (snd r))" using found empty by simp
      have "sh_result R s t (shortest_loop G multi (snd r))"
        using "1.IH"[OF _ _ "1.prems"(1) inv' nf none] True "1.prems"(3)
        by (simp add: r_def nb_def)
      then show ?thesis
        unfolding go by (simp add: sh_result_def ys empty)
    qed
  qed
qed


text \<open>Facts that hold for every graph, whatever the neighbour resolver does.\<close>

lemma shortest_loop_exit:
  "snd (snd (snd (shortest_loop G multi st))) \<or> fst (fst (snd (shortest_loop G multi st))) = []
     \<or> snd (fst (snd (shortest_loop G multi st))) = []"
proof (induction G multi st rule: shortest_loop.induct)
  case (1 G multi st)
  show ?case
  proof (cases "\<not> snd (snd st) \<and> fst (fst st) \<noteq> [] \<and> snd (fst st) \<noteq> []")
    case True
    then show ?thesis
      using "1.IH"[OF True refl] by (simp add: shortest_loop_go)
  next
    case False
    then show ?thesis
      by (auto simp: shortest_loop_stop)
  qed
qed

lemma shortest_loop_found_iff:
  "nodes_ok multi st \<Longrightarrow> \<not> snd (snd st) \<Longrightarrow>
     snd (snd (snd (shortest_loop G multi st))) = (fst (shortest_loop G multi st) \<noteq> [])"
proof (induction G multi st rule: shortest_loop.induct)
  case (1 G multi st)
  show ?case
  proof (cases "fst (fst st) \<noteq> [] \<and> snd (fst st) \<noteq> []")
    case False
    then show ?thesis
      using "1.prems"(2) by (auto simp: shortest_loop_stop)
  next
    case True
    define r where "r = shortest_round (resolver G multi) multi st"
    have ys: "fst r = round_ys (resolver G multi) st"
      unfolding r_def by (rule shortest_round_ys[OF "1.prems"(1)])
    have found: "snd (snd (snd r)) = (round_ys (resolver G multi) st \<noteq> [])"
      unfolding r_def using shortest_round_found[OF "1.prems"(1), of "resolver G multi"] "1.prems"(2)
      by simp
    have ok: "nodes_ok multi (snd r)"
      unfolding r_def by (rule shortest_round_nodes_ok[OF "1.prems"(1)])
    have go: "shortest_loop G multi st =
        (fst r @ fst (shortest_loop G multi (snd r)), snd (shortest_loop G multi (snd r)))"
      unfolding r_def using True "1.prems"(2) by (intro shortest_loop_go) auto
    show ?thesis
    proof (cases "round_ys (resolver G multi) st = []")
      case False
      then have "shortest_loop G multi (snd r) = ([], snd r)"
        using found by (intro shortest_loop_stop) simp
      with go False found ys show ?thesis by simp
    next
      case empty: True
      have "snd (snd (snd (shortest_loop G multi (snd r)))) =
            (fst (shortest_loop G multi (snd r)) \<noteq> [])"
        using "1.IH"[OF _ refl] True "1.prems"(2) ok found empty by (simp add: r_def)
      then show ?thesis
        unfolding go by (simp add: ys empty)
    qed
  qed
qed

lemma round_ys_same_anchor:
  assumes "sh_inv nb multi s s d0 d1 st"
  shows "round_ys nb st = []"
proof -
  have mem: "s \<in> set p" if "p \<in> set (fst (fst st)) \<or> p \<in> set (snd (fst st))" for p
  proof -
    from that assms have "p \<noteq> [] \<and> hd p = s"
      by (auto simp: sh_inv_def grow_def)
    then show ?thesis by (cases p) auto
  qed
  have "q \<notin> set (round_ys nb st)" for q
  proof
    assume "q \<in> set (round_ys nb st)"
    then obtain p_s p_t where "p_s \<in> set (sel (round_modus st) (fst st))"
      "p_t \<in> set (sel (\<not> round_modus st) (fst st))" "set p_t \<inter> set p_s = {}"
      unfolding round_ys_def round_yields_iff by (elim exE conjE)
    then show False
      using mem[of p_s] mem[of p_t] by (auto simp: sel_def split: if_splits)
  qed
  then show ?thesis by (cases "round_ys nb st") auto
qed

lemma shortest_loop_same_anchor:
  "sh_inv (resolver G multi) multi s s d0 d1 st \<Longrightarrow> \<not> snd (snd st) \<Longrightarrow>
     fst (shortest_loop G multi st) = [] \<and> \<not> snd (snd (snd (shortest_loop G multi st)))"
proof (induction G multi st arbitrary: d0 d1 rule: shortest_loop.induct)
  case (1 G multi st)
  show ?case
  proof (cases "fst (fst st) \<noteq> [] \<and> snd (fst st) \<noteq> []")
    case False
    then show ?thesis
      using "1.prems"(2) by (auto simp: shortest_loop_stop)
  next
    case True
    define r where "r = shortest_round (resolver G multi) multi st"
    have ok: "nodes_ok multi st" using "1.prems"(1) by (simp add: sh_inv_def)
    have empty: "round_ys (resolver G multi) st = []"
      by (rule round_ys_same_anchor[OF "1.prems"(1)])
    have ys: "fst r = []"
      unfolding r_def using shortest_round_ys[OF ok, of "resolver G multi"] empty by simp
    have nf: "\<not> snd (snd (snd r))"
      unfolding r_def using shortest_round_found[OF ok, of "resolver G multi"] "1.prems"(2) empty
      by simp
    have inv': "sh_inv (resolver G multi) multi s s (if round_modus st then d0 else Suc d0)
           (if round_modus st then Suc d1 else d1) (snd r)"
      unfolding r_def by (rule sh_inv_step[OF "1.prems"(1)])
    have go: "shortest_loop G multi st =
        (fst r @ fst (shortest_loop G multi (snd r)), snd (shortest_loop G multi (snd r)))"
      unfolding r_def using True "1.prems"(2) by (intro shortest_loop_go) auto
    have "fst (shortest_loop G multi (snd r)) = []
        \<and> \<not> snd (snd (snd (shortest_loop G multi (snd r))))"
      using "1.IH"[OF _ refl _ _] True "1.prems"(2) inv' nf by (simp add: r_def)
    then show ?thesis
      unfolding go by (simp add: ys)
  qed
qed


section \<open>Rounds of the all-simple-paths engine\<close>

text \<open>
  \<open>tree_paths\<close>: all partial paths a side's dict holds. \<open>tree_ok\<close>: the keys are distinct (it
  is a dict) and every path is filed under its last node. \<open>simple_meets\<close> and \<open>simple_grow\<close>
  are the two effects of the loop body: what it yields and what it adds to \<^verbatim>\<open>temp_tree\<close>.
\<close>

definition tree_paths :: "'a tree \<Rightarrow> 'a path list" where
  "tree_paths tree = concat (map snd tree)"

definition tree_ok :: "'a tree \<Rightarrow> bool" where
  "tree_ok tree \<longleftrightarrow>
     distinct (map fst tree) \<and> (\<forall>l ps p. (l, ps) \<in> set tree \<longrightarrow> p \<in> set ps \<longrightarrow> last p = l)"

definition simple_meets :: "bool \<Rightarrow> 'a tree \<Rightarrow> 'a \<times> 'a path \<Rightarrow> 'a path list" where
  "simple_meets modus tree_target sp =
     (if fst sp \<notin> set (snd sp) then
        (case map_of tree_target (fst sp) of
           Some paths_t \<Rightarrow>
             [stitch modus (snd sp) path_t. path_t \<leftarrow> paths_t, set path_t \<inter> set (snd sp) = {}]
         | None \<Rightarrow> [])
      else [])"

definition simple_grow :: "'a \<times> 'a path \<Rightarrow> 'a tree \<Rightarrow> 'a tree" where
  "simple_grow sp temp =
     (if fst sp \<notin> set (snd sp) then tree_add (fst sp) (snd sp @ [fst sp]) temp else temp)"

lemma tree_paths_iff:
  "p \<in> set (tree_paths tree) \<longleftrightarrow> (\<exists>l ps. (l, ps) \<in> set tree \<and> p \<in> set ps)"
  by (force simp: tree_paths_def)

lemma simple_step_eq:
  "simple_step modus tt sp (ys, temp) = (ys @ simple_meets modus tt sp, simple_grow sp temp)"
  by (simp add: simple_step_def simple_meets_def simple_grow_def Let_def)

lemma fold_simple_step:
  "fold (simple_step modus tt) work (ys, temp) =
     (ys @ concat (map (simple_meets modus tt) work), fold simple_grow work temp)"
proof (induction work arbitrary: ys temp)
  case Nil
  show ?case by simp
next
  case (Cons sp work)
  have "fold (simple_step modus tt) (sp # work) (ys, temp) =
        fold (simple_step modus tt) work (ys @ simple_meets modus tt sp, simple_grow sp temp)"
    by (simp only: fold_simps simple_step_eq)
  also have "\<dots> = ((ys @ simple_meets modus tt sp) @ concat (map (simple_meets modus tt) work),
                    fold simple_grow work (simple_grow sp temp))"
    by (rule Cons.IH)
  finally show ?case by simp
qed

lemma simple_round_eq:
  "simple_round nb modus ts tt =
     (concat (map (simple_meets modus tt) (simple_work nb modus ts)),
      fold simple_grow (simple_work nb modus ts) [])"
  by (simp add: simple_round_def fold_simple_step)

lemma tree_add_mem:
  assumes "distinct (map fst temp)"
  shows "(l, ps) \<in> set (tree_add s q temp) \<longleftrightarrow>
     (l = s \<and> ps = (case map_of temp s of Some ps' \<Rightarrow> List.insert q ps' | None \<Rightarrow> [q]))
   \<or> (l \<noteq> s \<and> (l, ps) \<in> set temp)"
proof -
  define v where "v = (case map_of temp s of Some ps' \<Rightarrow> List.insert q ps' | None \<Rightarrow> [q])"
  have d: "distinct (map fst (AList.update s v temp))"
    using assms by (rule distinct_update)
  have "(l, ps) \<in> set (AList.update s v temp) \<longleftrightarrow> map_of (AList.update s v temp) l = Some ps"
    using d by simp
  also have "\<dots> \<longleftrightarrow> ((map_of temp)(s \<mapsto> v)) l = Some ps"
    by (simp only: update_conv')
  also have "\<dots> \<longleftrightarrow> (l = s \<and> ps = v) \<or> (l \<noteq> s \<and> (l, ps) \<in> set temp)"
    using assms by auto
  finally show ?thesis
    by (simp add: tree_add_def v_def)
qed

lemma tree_add_ok:
  assumes "tree_ok temp" "last q = s"
  shows "tree_ok (tree_add s q temp)"
proof -
  have d: "distinct (map fst temp)" using assms(1) by (simp add: tree_ok_def)
  have "distinct (map fst (tree_add s q temp))"
    unfolding tree_add_def using d by (rule distinct_update)
  moreover have "last p = l" if "(l, ps) \<in> set (tree_add s q temp)" "p \<in> set ps" for l ps p
  proof -
    from that(1) consider
      "l = s" "ps = (case map_of temp s of Some ps' \<Rightarrow> List.insert q ps' | None \<Rightarrow> [q])"
      | "(l, ps) \<in> set temp"
      unfolding tree_add_mem[OF d] by auto
    then show ?thesis
    proof cases
      case 1
      show ?thesis
      proof (cases "map_of temp s")
        case None
        with 1 that(2) assms(2) show ?thesis by simp
      next
        case (Some ps')
        then have "(s, ps') \<in> set temp" using d by simp
        with 1 Some that(2) assms show ?thesis by (auto simp: tree_ok_def)
      qed
    next
      case 2
      with that(2) assms(1) show ?thesis by (auto simp: tree_ok_def)
    qed
  qed
  ultimately show ?thesis by (simp add: tree_ok_def)
qed

lemma tree_add_paths:
  assumes "tree_ok temp"
  shows "set (tree_paths (tree_add s q temp)) = insert q (set (tree_paths temp))"
proof (rule set_eqI)
  fix p
  have d: "distinct (map fst temp)" using assms(1) by (simp add: tree_ok_def)
  have L: "p \<in> set (tree_paths (tree_add s q temp)) \<longleftrightarrow>
      (\<exists>l ps. ((l = s \<and> ps = (case map_of temp s of Some ps' \<Rightarrow> List.insert q ps' | None \<Rightarrow> [q]))
   \<or> (l \<noteq> s \<and> (l, ps) \<in> set temp)) \<and> p \<in> set ps)"
    by (simp only: tree_paths_iff tree_add_mem[OF d])
  have R: "p \<in> insert q (set (tree_paths temp)) \<longleftrightarrow>
      p = q \<or> (\<exists>l ps. (l, ps) \<in> set temp \<and> p \<in> set ps)"
    by (simp only: insert_iff tree_paths_iff)
  define v where "v = (case map_of temp s of Some ps' \<Rightarrow> List.insert q ps' | None \<Rightarrow> [q])"
  have v: "set v = insert q {p. \<exists>ps. (s, ps) \<in> set temp \<and> p \<in> set ps}"
  proof (cases "map_of temp s")
    case None
    have "(s, ps) \<notin> set temp" for ps
    proof
      assume "(s, ps) \<in> set temp"
      then have "map_of temp s = Some ps" using d by simp
      with None show False by simp
    qed
    with None show ?thesis by (simp add: v_def)
  next
    case (Some ps')
    have mem: "(s, ps') \<in> set temp" using Some d by simp
    have uniq: "ps = ps'" if "(s, ps) \<in> set temp" for ps
    proof -
      from that have "map_of temp s = Some ps"
        by (simp only: map_of_eq_Some_iff[OF d])
      with Some show ?thesis by simp
    qed
    have "(\<exists>ps. (s, ps) \<in> set temp \<and> x \<in> set ps) \<longleftrightarrow> x \<in> set ps'" for x
    proof
      assume "\<exists>ps. (s, ps) \<in> set temp \<and> x \<in> set ps"
      then obtain ps where ps: "(s, ps) \<in> set temp" "x \<in> set ps" by (elim exE conjE)
      from uniq[OF ps(1)] ps(2) show "x \<in> set ps'" by simp
    next
      assume "x \<in> set ps'"
      with mem show "\<exists>ps. (s, ps) \<in> set temp \<and> x \<in> set ps"
        by (intro exI[of _ ps']) simp
    qed
    then have "{p. \<exists>ps. (s, ps) \<in> set temp \<and> p \<in> set ps} = set ps'"
      by simp
    with Some show ?thesis by (simp add: v_def)
  qed
  have "p \<in> set (tree_paths (tree_add s q temp)) \<longleftrightarrow>
      (\<exists>l ps. (l = s \<and> ps = v \<or> l \<noteq> s \<and> (l, ps) \<in> set temp) \<and> p \<in> set ps)"
    unfolding L v_def ..
  also have "\<dots> \<longleftrightarrow> p \<in> set v \<or> (\<exists>l ps. l \<noteq> s \<and> (l, ps) \<in> set temp \<and> p \<in> set ps)"
    by auto
  also have "\<dots> \<longleftrightarrow> p = q \<or> (\<exists>l ps. (l, ps) \<in> set temp \<and> p \<in> set ps)"
    unfolding v by auto
  finally show "p \<in> set (tree_paths (tree_add s q temp)) \<longleftrightarrow> p \<in> insert q (set (tree_paths temp))"
    unfolding R .
qed

lemma fold_simple_grow:
  "tree_ok temp \<Longrightarrow>
     tree_ok (fold simple_grow work temp) \<and>
     set (tree_paths (fold simple_grow work temp)) =
       set (tree_paths temp) \<union> set (extensions (map prod.swap work))"
proof (induction work arbitrary: temp)
  case Nil
  then show ?case by (simp add: extensions_def)
next
  case (Cons sp work)
  have ok: "tree_ok (simple_grow sp temp)"
    using Cons.prems by (simp add: simple_grow_def tree_add_ok)
  have paths: "set (tree_paths (simple_grow sp temp)) =
      set (tree_paths temp) \<union> set (extensions [prod.swap sp])"
    using Cons.prems by (simp add: simple_grow_def tree_add_paths extensions_def)
  have "extensions (map prod.swap (sp # work)) =
        extensions [prod.swap sp] @ extensions (map prod.swap work)"
    by (simp add: extensions_def)
  with Cons.IH[OF ok] paths show ?case
    by (simp add: Un_assoc)
qed


lemma simple_work_iff:
  "(s, p) \<in> set (simple_work nb modus ts) \<longleftrightarrow>
     (\<exists>l ps. (l, ps) \<in> set ts \<and> s \<in> set (nb modus l) \<and> p \<in> set ps)"
  apply (simp add: simple_work_def)
  apply (rule iffI)
   apply (elim bexE conjE)
  subgoal for x by (cases x) auto
  apply (elim exE conjE)
  subgoal for l ps by (intro bexI[of _ "(l, ps)"]) auto
  done

lemma simple_work_shortest_work:
  assumes "tree_ok ts"
  shows "(s, p) \<in> set (simple_work nb modus ts) \<longleftrightarrow>
         (p, s) \<in> set (shortest_work nb modus (tree_paths ts))"
proof -
  have l: "last p = l" if "(l, ps) \<in> set ts" "p \<in> set ps" for l ps
    using assms that unfolding tree_ok_def by (elim conjE allE[of _ l] allE[of _ ps] allE[of _ p]) simp
  show ?thesis
    unfolding simple_work_iff shortest_work_iff tree_paths_iff
  proof
    assume "\<exists>l ps. (l, ps) \<in> set ts \<and> s \<in> set (nb modus l) \<and> p \<in> set ps"
    then obtain l ps where *: "(l, ps) \<in> set ts" "s \<in> set (nb modus l)" "p \<in> set ps"
      by (elim exE conjE)
    from l[OF *(1,3)] * show "(\<exists>l ps. (l, ps) \<in> set ts \<and> p \<in> set ps) \<and> s \<in> set (nb modus (last p))"
      by (intro conjI exI[of _ l] exI[of _ ps]) simp_all
  next
    assume "(\<exists>l ps. (l, ps) \<in> set ts \<and> p \<in> set ps) \<and> s \<in> set (nb modus (last p))"
    then obtain l ps where *: "(l, ps) \<in> set ts" "p \<in> set ps" "s \<in> set (nb modus (last p))"
      by (elim exE conjE)
    from l[OF *(1,2)] * show "\<exists>l ps. (l, ps) \<in> set ts \<and> s \<in> set (nb modus l) \<and> p \<in> set ps"
      by (intro conjI exI[of _ l] exI[of _ ps]) simp_all
  qed
qed

lemma concat_map_if:
  "concat (map (\<lambda>x. if P x then [f x] else []) xs) = map f (filter P xs)"
  by (induction xs) auto

lemma simple_meets_None: "map_of tt s = None \<Longrightarrow> simple_meets modus tt (s, p) = []"
  by (simp add: simple_meets_def)

lemma simple_meets_Some:
  "map_of tt s = Some pts \<Longrightarrow>
     simple_meets modus tt (s, p) =
       (if s \<notin> set p then map (stitch modus p) (filter (\<lambda>pt. set pt \<inter> set p = {}) pts) else [])"
  by (simp add: simple_meets_def concat_map_if)

lemma simple_meets_iff:
  assumes "tree_ok tt"
  shows "q \<in> set (simple_meets modus tt (s, p)) \<longleftrightarrow> q \<in> set (meets modus (tree_paths tt) (p, s))"
proof -
  have d: "distinct (map fst tt)" using assms by (simp add: tree_ok_def)
  have l: "last pt = l" if "(l, ps) \<in> set tt" "pt \<in> set ps" for l ps pt
    using assms that unfolding tree_ok_def by (elim conjE allE[of _ l] allE[of _ ps] allE[of _ pt]) simp
  have R: "q \<in> set (meets modus (tree_paths tt) (p, s)) \<longleftrightarrow>
      s \<notin> set p \<and> (\<exists>l ps pt. (l, ps) \<in> set tt \<and> pt \<in> set ps \<and> s = last pt
         \<and> set pt \<inter> set p = {} \<and> q = stitch modus p pt)"
    unfolding meets_iff Bex_def tree_paths_iff by auto
  show ?thesis
  proof (cases "map_of tt s")
    case None
    have no: "(s, ps) \<notin> set tt" for ps
    proof
      assume "(s, ps) \<in> set tt"
      then have "map_of tt s = Some ps" by (simp only: map_of_eq_Some_iff[OF d])
      with None show False by simp
    qed
    have "q \<notin> set (meets modus (tree_paths tt) (p, s))"
    proof
      assume "q \<in> set (meets modus (tree_paths tt) (p, s))"
      then obtain pt where pt: "pt \<in> set (tree_paths tt)" "s = last pt"
        unfolding meets_iff by (elim conjE bexE)
      from pt(1) obtain l ps where lps: "(l, ps) \<in> set tt" "pt \<in> set ps"
        unfolding tree_paths_iff by (elim exE conjE)
      from l[OF lps] pt(2) lps(1) no[of ps] show False by simp
    qed
    moreover have "q \<notin> set (simple_meets modus tt (s, p))"
      by (simp add: simple_meets_None[OF None])
    ultimately show ?thesis by simp
  next
    case (Some pts)
    have mem: "(s, pts) \<in> set tt" using Some by (simp only: map_of_eq_Some_iff[OF d])
    have uniq: "ps = pts" if "(s, ps) \<in> set tt" for ps
    proof -
      from that have "map_of tt s = Some ps" by (simp only: map_of_eq_Some_iff[OF d])
      with Some show ?thesis by simp
    qed
    have L: "q \<in> set (simple_meets modus tt (s, p)) \<longleftrightarrow>
        s \<notin> set p \<and> (\<exists>pt. pt \<in> set pts \<and> set pt \<inter> set p = {} \<and> q = stitch modus p pt)"
      by (auto simp: simple_meets_Some[OF Some])
    have "(\<exists>l ps pt. (l, ps) \<in> set tt \<and> pt \<in> set ps \<and> s = last pt
         \<and> set pt \<inter> set p = {} \<and> q = stitch modus p pt) \<longleftrightarrow>
       (\<exists>pt. pt \<in> set pts \<and> set pt \<inter> set p = {} \<and> q = stitch modus p pt)"
    proof
      assume "\<exists>l ps pt. (l, ps) \<in> set tt \<and> pt \<in> set ps \<and> s = last pt
         \<and> set pt \<inter> set p = {} \<and> q = stitch modus p pt"
      then obtain l ps pt where *: "(l, ps) \<in> set tt" "pt \<in> set ps" "s = last pt"
        "set pt \<inter> set p = {}" "q = stitch modus p pt"
        by (elim exE conjE)
      from l[OF *(1,2)] *(3) have "l = s" by simp
      with *(1) have "ps = pts" using uniq by simp
      with * show "\<exists>pt. pt \<in> set pts \<and> set pt \<inter> set p = {} \<and> q = stitch modus p pt"
        by (intro exI[of _ pt]) simp
    next
      assume "\<exists>pt. pt \<in> set pts \<and> set pt \<inter> set p = {} \<and> q = stitch modus p pt"
      then obtain pt where *: "pt \<in> set pts" "set pt \<inter> set p = {}" "q = stitch modus p pt"
        by (elim exE conjE)
      from l[OF mem *(1)] mem * show "\<exists>l ps pt. (l, ps) \<in> set tt \<and> pt \<in> set ps \<and> s = last pt
         \<and> set pt \<inter> set p = {} \<and> q = stitch modus p pt"
        by (intro exI[of _ s] exI[of _ pts] exI[of _ pt]) simp
    qed
    then show ?thesis by (simp only: L R)
  qed
qed

lemma simple_round_ys_iff:
  assumes "tree_ok ts" "tree_ok tt"
  shows "q \<in> set (fst (simple_round nb modus ts tt)) \<longleftrightarrow>
     q \<in> set (concat (map (meets modus (tree_paths tt)) (shortest_work nb modus (tree_paths ts))))"
proof -
  have "q \<in> set (fst (simple_round nb modus ts tt)) \<longleftrightarrow>
      (\<exists>s p. (s, p) \<in> set (simple_work nb modus ts) \<and> q \<in> set (simple_meets modus tt (s, p)))"
    by (auto simp: simple_round_eq)
  also have "\<dots> \<longleftrightarrow> (\<exists>s p. (p, s) \<in> set (shortest_work nb modus (tree_paths ts))
        \<and> q \<in> set (meets modus (tree_paths tt) (p, s)))"
    by (simp only: simple_work_shortest_work[OF assms(1)] simple_meets_iff[OF assms(2)])
  also have "\<dots> \<longleftrightarrow>
     q \<in> set (concat (map (meets modus (tree_paths tt)) (shortest_work nb modus (tree_paths ts))))"
    by auto
  finally show ?thesis .
qed

lemma simple_round_tree:
  assumes "tree_ok ts"
  shows "tree_ok (snd (simple_round nb modus ts tt))"
    and "set (tree_paths (snd (simple_round nb modus ts tt))) =
         set (extensions (shortest_work nb modus (tree_paths ts)))"
proof -
  have ok0: "tree_ok []" by (simp add: tree_ok_def)
  from fold_simple_grow[OF ok0, of "simple_work nb modus ts"]
  have ok: "tree_ok (fold simple_grow (simple_work nb modus ts) [])"
    and ps: "set (tree_paths (fold simple_grow (simple_work nb modus ts) [])) =
       set (extensions (map prod.swap (simple_work nb modus ts)))"
    by (simp_all add: tree_paths_def)
  show "tree_ok (snd (simple_round nb modus ts tt))"
    using ok by (simp add: simple_round_eq)
  have "q \<in> set (extensions (map prod.swap (simple_work nb modus ts))) \<longleftrightarrow>
        q \<in> set (extensions (shortest_work nb modus (tree_paths ts)))" for q
  proof -
    have "(p, s) \<in> set (map prod.swap (simple_work nb modus ts)) \<longleftrightarrow>
          (p, s) \<in> set (shortest_work nb modus (tree_paths ts))" for p s
      using simple_work_shortest_work[OF assms, of s p nb modus] by force
    then show ?thesis
      by (simp only: extensions_iff)
  qed
  then show "set (tree_paths (snd (simple_round nb modus ts tt))) =
         set (extensions (shortest_work nb modus (tree_paths ts)))"
    using ps by (auto simp: simple_round_eq)
qed


section \<open>Correctness of the all-simple-paths rounds\<close>

text \<open>
  The invariant is the one of the shortest-paths loop, on the paths the two dicts hold.
  \<open>simple_modus\<close> is the side a round expands (the dict with fewer keys; the source side on
  a tie) and \<open>simple_next\<close> that round.
\<close>

definition sp_inv ::
  "(bool \<Rightarrow> 'a \<Rightarrow> 'a list) \<Rightarrow> 'a \<Rightarrow> 'a \<Rightarrow> nat \<Rightarrow> nat \<Rightarrow> 'a tree \<times> 'a tree \<Rightarrow> bool" where
  "sp_inv nb s t d0 d1 tree \<longleftrightarrow>
     tree_ok (fst tree) \<and> tree_ok (snd tree)
   \<and> set (tree_paths (fst tree)) = grow (nbrel nb False) s d0
   \<and> set (tree_paths (snd tree)) = grow (nbrel nb True) t d1"

definition simple_modus :: "'a tree \<times> 'a tree \<Rightarrow> bool" where
  "simple_modus tree = (length (snd tree) < length (fst tree))"

definition simple_next :: "(bool \<Rightarrow> 'a \<Rightarrow> 'a list) \<Rightarrow> 'a tree \<times> 'a tree \<Rightarrow> 'a path list \<times> 'a tree" where
  "simple_next nb tree =
     simple_round nb (simple_modus tree) (sel (simple_modus tree) tree)
       (sel (\<not> simple_modus tree) tree)"

lemma simple_rounds_Suc:
  "simple_rounds nb (Suc k) tree =
     fst (simple_next nb tree)
       @ simple_rounds nb k (upd (simple_modus tree) (snd (simple_next nb tree)) tree)"
  by (simp add: Let_def simple_next_def simple_modus_def)

lemma sp_inv_init: "sp_inv nb s t 0 0 ([(s, [[s]])], [(t, [[t]])])"
  by (simp add: sp_inv_def tree_ok_def tree_paths_def grow_0)

lemma sp_inv_step:
  assumes "sp_inv nb s t d0 d1 tree"
  shows "sp_inv nb s t (if simple_modus tree then d0 else Suc d0)
           (if simple_modus tree then Suc d1 else d1)
           (upd (simple_modus tree) (snd (simple_next nb tree)) tree)"
proof (cases "simple_modus tree")
  case True
  have ok: "tree_ok (snd tree)" and ps: "set (tree_paths (snd tree)) = grow (nbrel nb True) t d1"
    using assms by (simp_all add: sp_inv_def)
  have "tree_ok (snd (simple_next nb tree))"
    and "set (tree_paths (snd (simple_next nb tree))) = grow (nbrel nb True) t (Suc d1)"
    using simple_round_tree[OF ok, of nb True "fst tree"] extensions_grow[OF ps] True
    by (simp_all add: simple_next_def sel_def)
  with assms True show ?thesis
    by (simp add: sp_inv_def upd_def)
next
  case False
  have ok: "tree_ok (fst tree)" and ps: "set (tree_paths (fst tree)) = grow (nbrel nb False) s d0"
    using assms by (simp_all add: sp_inv_def)
  have "tree_ok (snd (simple_next nb tree))"
    and "set (tree_paths (snd (simple_next nb tree))) = grow (nbrel nb False) s (Suc d0)"
    using simple_round_tree[OF ok, of nb False "snd tree"] extensions_grow[OF ps] False
    by (simp_all add: simple_next_def sel_def)
  with assms False show ?thesis
    by (simp add: sp_inv_def upd_def)
qed

lemma simple_next_iff:
  assumes "sp_inv nb s t d0 d1 tree"
  shows "q \<in> set (fst (simple_next nb tree)) \<longleftrightarrow>
     q \<in> set (concat (map (meets (simple_modus tree)
                              (sel (\<not> simple_modus tree) (tree_paths (fst tree), tree_paths (snd tree))))
           (shortest_work nb (simple_modus tree)
              (sel (simple_modus tree) (tree_paths (fst tree), tree_paths (snd tree))))))"
proof -
  have "tree_ok (sel (simple_modus tree) tree)" "tree_ok (sel (\<not> simple_modus tree) tree)"
    using assms by (simp_all add: sp_inv_def sel_def)
  from simple_round_ys_iff[OF this, of q nb "simple_modus tree"] show ?thesis
    by (simp add: simple_next_def sel_def)
qed

lemma simple_next_shape:
  assumes "sp_inv nb s t d0 d1 tree" "q \<in> set (fst (simple_next nb tree))"
  shows "distinct q \<and> hd q = s \<and> last q = t \<and> length q = d0 + d1 + 2"
proof -
  from assms obtain p_s p_t where
    ps: "p_s \<in> set (sel (simple_modus tree) (tree_paths (fst tree), tree_paths (snd tree)))"
    and pt: "p_t \<in> set (sel (\<not> simple_modus tree) (tree_paths (fst tree), tree_paths (snd tree)))"
    and dj: "set p_t \<inter> set p_s = {}" and q: "q = stitch (simple_modus tree) p_s p_t"
    unfolding simple_next_iff[OF assms(1)] round_yields_iff by (elim exE conjE)
  show ?thesis
  proof (cases "simple_modus tree")
    case True
    with ps pt assms(1) have "p_s \<in> grow (nbrel nb True) t d1" "p_t \<in> grow (nbrel nb False) s d0"
      by (simp_all add: sel_def sp_inv_def)
    with dj q True show ?thesis
      by (simp add: stitch_def grow_def last_rev)
  next
    case False
    with ps pt assms(1) have "p_t \<in> grow (nbrel nb True) t d1" "p_s \<in> grow (nbrel nb False) s d0"
      by (simp_all add: sel_def sp_inv_def)
    with dj q False show ?thesis
      by (simp add: stitch_def grow_def last_rev Int_commute)
  qed
qed

lemma simple_next_spaths:
  assumes "sp_inv nb s t d0 d1 tree" "follows nb R"
  shows "set (fst (simple_next nb tree)) = spaths R s t (d0 + d1 + 2)"
proof -
  have t0: "set (tree_paths (fst tree)) = grow R s d0"
    and t1: "set (tree_paths (snd tree)) = grow (\<lambda>x y. R y x) t d1"
    using assms by (simp_all add: sp_inv_def follows_nbrel)
  have ne: "[] \<notin> set (fst (tree_paths (fst tree), tree_paths (snd tree)))"
    "[] \<notin> set (snd (tree_paths (fst tree), tree_paths (snd tree)))"
    using t0 t1 by (auto simp: grow_def)
  have "set (fst (simple_next nb tree)) =
        joins R (set (tree_paths (fst tree))) (set (tree_paths (snd tree)))"
    using round_yields_joins[OF assms(2) ne, of "simple_modus tree"] simple_next_iff[OF assms(1)]
    by auto
  then show ?thesis
    by (simp add: t0 t1 joins_grow)
qed

lemma sorted_map_const:
  "(\<And>x. x \<in> set xs \<Longrightarrow> f x = (c::nat)) \<Longrightarrow> sorted (map f xs)"
  by (induction xs) auto

lemma simple_rounds_sound:
  "sp_inv nb s t d0 d1 tree \<Longrightarrow>
     (\<forall>q \<in> set (simple_rounds nb n tree).
        distinct q \<and> hd q = s \<and> last q = t \<and> d0 + d1 + 2 \<le> length q \<and> length q \<le> d0 + d1 + 1 + n)
   \<and> sorted (map length (simple_rounds nb n tree))"
proof (induction n arbitrary: d0 d1 tree)
  case 0
  show ?case by simp
next
  case (Suc n)
  define d0' where "d0' = (if simple_modus tree then d0 else Suc d0)"
  define d1' where "d1' = (if simple_modus tree then Suc d1 else d1)"
  define tree' where "tree' = upd (simple_modus tree) (snd (simple_next nb tree)) tree"
  have inv': "sp_inv nb s t d0' d1' tree'"
    unfolding d0'_def d1'_def tree'_def by (rule sp_inv_step[OF Suc.prems])
  have sum: "d0' + d1' = Suc (d0 + d1)" by (simp add: d0'_def d1'_def)
  note IH = Suc.IH[OF inv']
  have now: "distinct q \<and> hd q = s \<and> last q = t \<and> length q = d0 + d1 + 2"
    if "q \<in> set (fst (simple_next nb tree))" for q
    using simple_next_shape[OF Suc.prems that] .
  have later: "distinct q \<and> hd q = s \<and> last q = t \<and> d0 + d1 + 3 \<le> length q
      \<and> length q \<le> d0 + d1 + 2 + n"
    if "q \<in> set (simple_rounds nb n tree')" for q
    using IH that sum by auto
  have "sorted (map length (fst (simple_next nb tree)))"
    using now by (intro sorted_map_const[where c = "d0 + d1 + 2"]) simp
  moreover have "length x \<le> length y"
    if "x \<in> set (fst (simple_next nb tree))" "y \<in> set (simple_rounds nb n tree')" for x y
    using now[OF that(1)] later[OF that(2)] by simp
  ultimately have "sorted (map length (fst (simple_next nb tree) @ simple_rounds nb n tree'))"
    using IH by (simp add: sorted_append)
  moreover have "distinct q \<and> hd q = s \<and> last q = t \<and> d0 + d1 + 2 \<le> length q
      \<and> length q \<le> d0 + d1 + 1 + Suc n"
    if "q \<in> set (fst (simple_next nb tree) @ simple_rounds nb n tree')" for q
    using that now[of q] later[of q] by auto
  ultimately show ?case
    unfolding simple_rounds_Suc tree'_def[symmetric] by blast
qed

lemma simple_rounds_complete:
  "sp_inv nb s t d0 d1 tree \<Longrightarrow> follows nb R \<Longrightarrow>
     set (simple_rounds nb n tree) = (\<Union>k \<in> {d0 + d1 + 2 ..< d0 + d1 + 2 + n}. spaths R s t k)"
proof (induction n arbitrary: d0 d1 tree)
  case 0
  show ?case by simp
next
  case (Suc n)
  define d0' where "d0' = (if simple_modus tree then d0 else Suc d0)"
  define d1' where "d1' = (if simple_modus tree then Suc d1 else d1)"
  define tree' where "tree' = upd (simple_modus tree) (snd (simple_next nb tree)) tree"
  have inv': "sp_inv nb s t d0' d1' tree'"
    unfolding d0'_def d1'_def tree'_def by (rule sp_inv_step[OF Suc.prems(1)])
  have sum: "d0' + d1' + 2 = d0 + d1 + 3" by (simp add: d0'_def d1'_def)
  have "set (simple_rounds nb n tree') =
      (\<Union>k \<in> {d0 + d1 + 3 ..< d0 + d1 + 3 + n}. spaths R s t k)"
    using Suc.IH[OF inv' Suc.prems(2)] unfolding sum .
  moreover have "set (fst (simple_next nb tree)) = spaths R s t (d0 + d1 + 2)"
    by (rule simple_next_spaths[OF Suc.prems])
  moreover have "{d0 + d1 + 2 ..< d0 + d1 + 2 + Suc n} =
      insert (d0 + d1 + 2) {d0 + d1 + 3 ..< d0 + d1 + 3 + n}"
    by auto
  ultimately show ?case
    unfolding simple_rounds_Suc tree'_def[symmetric] by simp
qed

lemma simple_rounds_same_anchor:
  "sp_inv nb s s d0 d1 tree \<Longrightarrow> simple_rounds nb n tree = []"
proof (induction n arbitrary: d0 d1 tree)
  case 0
  show ?case by simp
next
  case (Suc n)
  have "q \<notin> set (fst (simple_next nb tree))" for q
  proof
    assume "q \<in> set (fst (simple_next nb tree))"
    then obtain p_s p_t where
      ps: "p_s \<in> set (sel (simple_modus tree) (tree_paths (fst tree), tree_paths (snd tree)))"
      and pt: "p_t \<in> set (sel (\<not> simple_modus tree) (tree_paths (fst tree), tree_paths (snd tree)))"
      and dj: "set p_t \<inter> set p_s = {}"
      unfolding simple_next_iff[OF Suc.prems] round_yields_iff by (elim exE conjE)
    have "s \<in> set p"
      if "p \<in> set (tree_paths (fst tree)) \<or> p \<in> set (tree_paths (snd tree))" for p
    proof -
      have "p \<noteq> [] \<and> hd p = s"
        using that Suc.prems by (auto simp: sp_inv_def grow_def)
      then show ?thesis by (cases p) auto
    qed
    from this[of p_s] this[of p_t] ps pt dj show False
      by (auto simp: sel_def split: if_splits)
  qed
  then have "fst (simple_next nb tree) = []"
    by (cases "fst (simple_next nb tree)") auto
  moreover have "simple_rounds nb n (upd (simple_modus tree) (snd (simple_next nb tree)) tree) = []"
    using Suc.IH[OF sp_inv_step[OF Suc.prems]] .
  ultimately show ?case
    unfolding simple_rounds_Suc by simp
qed


section \<open>Walks, reachability and paths without repeated nodes\<close>

text \<open>
  \<open>walk R a b p\<close>: the node sequence \<open>p\<close> leads from \<open>a\<close> to \<open>b\<close> along \<open>R\<close> (a single
  node is the walk of length 0). A walk exists exactly when \<open>b\<close> is reachable from \<open>a\<close>, and
  cutting the loops out of a walk leaves one without repeated nodes.
\<close>

definition walk :: "('a \<Rightarrow> 'a \<Rightarrow> bool) \<Rightarrow> 'a \<Rightarrow> 'a \<Rightarrow> 'a path \<Rightarrow> bool" where
  "walk R a b p \<longleftrightarrow> p \<noteq> [] \<and> hd p = a \<and> last p = b \<and> successively R p"

lemma walk_single: "walk R a a [a]"
  by (simp add: walk_def)

lemma walk_snoc: "walk R a b p \<Longrightarrow> R b c \<Longrightarrow> walk R a c (p @ [c])"
  by (simp add: walk_def successively_append_iff)

lemma rtranclp_walk: "R\<^sup>*\<^sup>* a b \<Longrightarrow> \<exists>p. walk R a b p"
proof (induction rule: rtranclp_induct)
  case base
  show ?case using walk_single[of R a] by (intro exI)
next
  case (step y z)
  then obtain p where "walk R a y p" by (elim exE)
  from walk_snoc[OF this step.hyps(2)] show ?case by (intro exI)
qed

lemma walk_rtranclp: "walk R a b p \<Longrightarrow> R\<^sup>*\<^sup>* a b"
proof (induction p arbitrary: a)
  case Nil
  then show ?case by (simp add: walk_def)
next
  case (Cons x p)
  show ?case
  proof (cases p)
    case Nil
    with Cons.prems have "a = b" by (auto simp: walk_def)
    then show ?thesis by simp
  next
    case (Cons y ys)
    with Cons.prems have "R a y" "walk R y b p"
      by (auto simp: walk_def)
    with Cons.IH[of y] show ?thesis
      by (simp add: converse_rtranclp_into_rtranclp)
  qed
qed

lemma walk_cut:
  assumes "walk R a b (xs @ [y] @ ys @ [y] @ zs)"
  shows "walk R a b (xs @ [y] @ zs)"
proof -
  have "hd (xs @ [y] @ zs) = hd (xs @ [y] @ ys @ [y] @ zs)"
    by (cases xs) auto
  moreover have "last (xs @ [y] @ zs) = last (xs @ [y] @ ys @ [y] @ zs)"
    by (cases zs) auto
  moreover have "successively R (xs @ [y] @ zs)"
    using assms by (cases zs; cases xs rule: rev_cases)
      (auto simp: walk_def successively_append_iff successively_Cons)
  ultimately show ?thesis
    using assms by (simp add: walk_def)
qed

lemma walk_shorten:
  "walk R a b p \<Longrightarrow> \<exists>q. walk R a b q \<and> distinct q \<and> length q \<le> length p"
proof (induction "length p" arbitrary: p rule: less_induct)
  case less
  show ?case
  proof (cases "distinct p")
    case True
    with less.prems show ?thesis by (intro exI[of _ p]) simp
  next
    case False
    then obtain xs ys zs y where p: "p = xs @ [y] @ ys @ [y] @ zs"
      using not_distinct_decomp by blast
    have w: "walk R a b (xs @ [y] @ zs)"
      using less.prems unfolding p by (rule walk_cut)
    have "length (xs @ [y] @ zs) < length p" by (simp add: p)
    from less.hyps[OF this w] obtain q where
      "walk R a b q" "distinct q" "length q \<le> length (xs @ [y] @ zs)"
      by (elim exE conjE)
    then show ?thesis
      by (intro exI[of _ q]) (simp add: p)
  qed
qed

lemma spaths_iff: "q \<in> spaths R a b n \<longleftrightarrow> walk R a b q \<and> distinct q \<and> length q = n"
  by (auto simp: spaths_def walk_def)


section \<open>The reference notions of the claims\<close>

text \<open>
  \<open>reachable\<close> is the reference reachability check: the reflexive transitive closure of the
  edge relation. \<open>is_path\<close>: a node sequence that follows the edges from \<open>s\<close> to \<open>t\<close>, of
  any length. \<open>simple_paths\<close>: those without a repeated node. \<open>shortest_paths\<close>: those of
  minimum length, and \<open>distance\<close> their number of edges. \<open>wf_graph\<close>: every edge joins nodes
  of the graph. \<open>yields_of\<close>: the paths a call yields (none when the call fails).
\<close>

definition reachable :: "'a graph \<Rightarrow> 'a \<Rightarrow> 'a \<Rightarrow> bool" where
  "reachable G s t \<longleftrightarrow> (arc G)\<^sup>*\<^sup>* s t"

definition is_path :: "'a graph \<Rightarrow> 'a \<Rightarrow> 'a \<Rightarrow> 'a path \<Rightarrow> bool" where
  "is_path G s t p \<longleftrightarrow> walk (arc G) s t p"

definition simple_paths :: "'a graph \<Rightarrow> 'a \<Rightarrow> 'a \<Rightarrow> 'a path set" where
  "simple_paths G s t = {p. is_path G s t p \<and> distinct p}"

definition shortest_paths :: "'a graph \<Rightarrow> 'a \<Rightarrow> 'a \<Rightarrow> 'a path set" where
  "shortest_paths G s t = {p. is_path G s t p \<and> (\<forall>q. is_path G s t q \<longrightarrow> length p \<le> length q)}"

definition distance :: "'a graph \<Rightarrow> 'a \<Rightarrow> 'a \<Rightarrow> nat" where
  "distance G s t = (LEAST n. \<exists>p. is_path G s t p \<and> length p = Suc n)"

definition wf_graph :: "'a graph \<Rightarrow> bool" where
  "wf_graph G \<longleftrightarrow> (\<forall>(u, v) \<in> set (g_edges G). contains G u \<and> contains G v)"

definition yields_of :: "error + 'a generator \<Rightarrow> 'a path set" where
  "yields_of r = (case r of Inl e \<Rightarrow> {} | Inr g \<Rightarrow> set (fst g))"

lemma reachable_iff_path: "reachable G s t \<longleftrightarrow> (\<exists>p. is_path G s t p)"
  unfolding reachable_def is_path_def using rtranclp_walk[of "arc G" s t] walk_rtranclp[of "arc G" s t]
  by auto

lemma resolver_follows:
  assumes "\<not> (multi \<and> g_directed G)"
  shows "follows (resolver G multi) (arc G)"
proof (cases multi)
  case True
  with assms have "\<not> g_directed G" by simp
  with True show ?thesis
    by (auto simp: follows_def resolver_def set_neighbors_multi arc_def)
next
  case False
  then show ?thesis
    by (auto simp: follows_def resolver_def set_neighbors arc_def)
qed

lemma simple_paths_spaths: "simple_paths G s t = (\<Union>n. spaths (arc G) s t n)"
  by (auto simp: simple_paths_def is_path_def spaths_iff)

lemma spaths_short:
  assumes "s \<noteq> t" "n \<le> 1"
  shows "spaths R s t n = {}"
proof -
  have "q \<notin> spaths R s t n" for q
  proof
    assume "q \<in> spaths R s t n"
    with assms(2) have "q \<noteq> []" "hd q = s" "last q = t" "length q \<le> 1"
      by (simp_all add: spaths_def)
    with assms(1) show False by (cases q) auto
  qed
  then show ?thesis by auto
qed

lemma walk_nodes:
  "walk R a b p \<Longrightarrow> set p \<subseteq> insert a {v. \<exists>u. R u v}"
proof (induction p arbitrary: a)
  case Nil
  then show ?case by (simp add: walk_def)
next
  case (Cons x p)
  show ?case
  proof (cases p)
    case Nil
    with Cons.prems show ?thesis by (auto simp: walk_def)
  next
    case (Cons y ys)
    with Cons.prems have "a = x" "R x y" "walk R y b p"
      by (auto simp: walk_def)
    with Cons.IH[of y] show ?thesis by auto
  qed
qed

lemma simple_path_length:
  assumes "wf_graph G" "contains G s" "p \<in> simple_paths G s t"
  shows "int (length p) \<le> len G"
proof -
  from assms(3) have w: "walk (arc G) s t p" and d: "distinct p"
    by (simp_all add: simple_paths_def is_path_def)
  have "v \<in> set (g_nodes G)" if "arc G u v" for u v
    using that assms(1) by (auto simp: arc_def wf_graph_def contains_def)
  with walk_nodes[OF w] assms(2) have "set p \<subseteq> set (g_nodes G)"
    by (auto simp: contains_def)
  then have "card (set p) \<le> card (set (g_nodes G))"
    by (intro card_mono) simp_all
  with d show ?thesis
    by (simp add: len_def distinct_card card_length length_remdups_card_conv)
qed


section \<open>No path is yielded twice\<close>

text \<open>
  \<open>nb_distinct\<close>: the resolver lists no neighbour twice. Then the trees hold no path twice
  and a round stitches every path once.
\<close>

definition nb_distinct :: "(bool \<Rightarrow> 'a \<Rightarrow> 'a list) \<Rightarrow> bool" where
  "nb_distinct nb \<longleftrightarrow> (\<forall>modus u. distinct (nb modus u))"

lemma distinct_concat_map:
  assumes "distinct xs" "\<And>x. x \<in> set xs \<Longrightarrow> distinct (f x)"
    "\<And>x y. x \<in> set xs \<Longrightarrow> y \<in> set xs \<Longrightarrow> x \<noteq> y \<Longrightarrow> set (f x) \<inter> set (f y) = {}"
  shows "distinct (concat (map f xs))"
  using assms
proof (induction xs)
  case Nil
  show ?case by simp
next
  case (Cons x xs)
  have "distinct (concat (map f xs))"
    using Cons.prems by (intro Cons.IH) auto
  moreover have "distinct (f x)" using Cons.prems(2) by simp
  moreover have "set (f x) \<inter> set (f y) = {}" if "y \<in> set xs" for y
    using Cons.prems(1) Cons.prems(3)[of x y] that by auto
  ultimately show ?case by auto
qed

lemma shortest_work_concat:
  "shortest_work nb modus ts = concat (map (\<lambda>p. map (Pair p) (nb modus (last p))) ts)"
  by (simp add: shortest_work_def concat_singleton_map)

lemma distinct_shortest_work:
  assumes "nb_distinct nb" "distinct ts"
  shows "distinct (shortest_work nb modus ts)"
  unfolding shortest_work_concat
proof (rule distinct_concat_map[OF assms(2)])
  fix p
  show "distinct (map (Pair p) (nb modus (last p)))"
    using assms(1) by (simp add: nb_distinct_def distinct_map inj_on_def)
next
  fix p p' :: "'a list"
  assume "p \<noteq> p'"
  then show "set (map (Pair p) (nb modus (last p))) \<inter> set (map (Pair p') (nb modus (last p'))) = {}"
    by auto
qed

lemma extensions_map:
  "extensions work = map (\<lambda>ps. fst ps @ [snd ps]) (filter (\<lambda>ps. snd ps \<notin> set (fst ps)) work)"
  by (simp add: extensions_def concat_map_if)

lemma distinct_extensions:
  assumes "distinct work"
  shows "distinct (extensions work)"
  unfolding extensions_map using assms
  by (auto simp: distinct_map inj_on_def prod_eq_iff)

lemma meets_map:
  "meets modus tt ps =
     (if snd ps \<notin> set (fst ps)
      then map (stitch modus (fst ps))
             (filter (\<lambda>path_t. snd ps = last path_t \<and> set path_t \<inter> set (fst ps) = {}) tt)
      else [])"
proof -
  have "[stitch modus (fst ps) path_t. path_t \<leftarrow> tt,
              snd ps = last path_t, set path_t \<inter> set (fst ps) = {}]
      = concat (map (\<lambda>path_t. if snd ps = last path_t \<and> set path_t \<inter> set (fst ps) = {}
                               then [stitch modus (fst ps) path_t] else []) tt)"
    by (induction tt) auto
  then show ?thesis
    by (simp add: meets_def concat_map_if)
qed

lemma stitch_inj:
  assumes "stitch modus p pt = stitch modus p' pt'" "length p = length p'"
  shows "p = p' \<and> pt = pt'"
  using assms by (cases modus) (auto simp: stitch_def)

lemma distinct_meets:
  assumes "distinct tt"
  shows "distinct (meets modus tt ps)"
  unfolding meets_map using assms
  by (auto simp: distinct_map inj_on_def dest: stitch_inj)

lemma distinct_round_ys:
  assumes "nb_distinct nb" "distinct ts" "distinct tt" "\<And>p. p \<in> set ts \<Longrightarrow> length p = n"
  shows "distinct (concat (map (meets modus tt) (shortest_work nb modus ts)))"
proof (rule distinct_concat_map)
  show "distinct (shortest_work nb modus ts)"
    by (rule distinct_shortest_work[OF assms(1,2)])
next
  fix w
  show "distinct (meets modus tt w)" by (rule distinct_meets[OF assms(3)])
next
  fix w w'
  assume mem: "w \<in> set (shortest_work nb modus ts)" "w' \<in> set (shortest_work nb modus ts)"
    and ne: "w \<noteq> w'"
  have "fst x \<in> set ts" if "x \<in> set (shortest_work nb modus ts)" for x
    using that shortest_work_iff[of "fst x" "snd x" nb modus ts] by simp
  from this[OF mem(1)] this[OF mem(2)] have len: "length (fst w) = length (fst w')"
    using assms(4)[of "fst w"] assms(4)[of "fst w'"] by simp
  show "set (meets modus tt w) \<inter> set (meets modus tt w') = {}"
  proof (rule ccontr)
    assume "set (meets modus tt w) \<inter> set (meets modus tt w') \<noteq> {}"
    then obtain q where q: "q \<in> set (meets modus tt w)" "q \<in> set (meets modus tt w')" by auto
    from q(1) obtain pt where 1: "snd w = last pt" "q = stitch modus (fst w) pt"
      using meets_iff[of q modus tt "fst w" "snd w"] by auto
    from q(2) obtain pt' where 2: "snd w' = last pt'" "q = stitch modus (fst w') pt'"
      using meets_iff[of q modus tt "fst w'" "snd w'"] by auto
    from stitch_inj[OF _ len, of modus pt pt'] 1 2 have "fst w = fst w'" "pt = pt'" by auto
    with 1 2 have "w = w'" by (simp add: prod_eq_iff)
    with ne show False by simp
  qed
qed


lemma shortest_round_distinct:
  assumes "nb_distinct nb" "distinct (fst (fst st))" "distinct (snd (fst st))"
  shows "distinct (fst (fst (snd (shortest_round nb multi st))))
       \<and> distinct (snd (fst (snd (shortest_round nb multi st))))"
proof -
  have "distinct (round_ext nb st)"
    unfolding round_ext_def
    by (intro distinct_extensions distinct_shortest_work[OF assms(1)])
       (use assms(2,3) in \<open>simp add: sel_def\<close>)
  then have "distinct (if multi then round_ext nb st else List.union (round_ext nb st) [])"
    by simp
  with assms(2,3) show ?thesis
    unfolding shortest_round_tree by (simp add: upd_def)
qed

lemma shortest_loop_distinct:
  "nb_distinct (resolver G multi) \<Longrightarrow> sh_inv (resolver G multi) multi s t d0 d1 st \<Longrightarrow>
   distinct (fst (fst st)) \<Longrightarrow> distinct (snd (fst st)) \<Longrightarrow> \<not> snd (snd st) \<Longrightarrow>
   distinct (fst (shortest_loop G multi st))"
proof (induction G multi st arbitrary: d0 d1 rule: shortest_loop.induct)
  case (1 G multi st)
  define nb where "nb = resolver G multi"
  note nd = "1.prems"(1)[folded nb_def] and inv = "1.prems"(2)[folded nb_def]
  show ?case
  proof (cases "fst (fst st) \<noteq> [] \<and> snd (fst st) \<noteq> []")
    case False
    then have "shortest_loop G multi st = ([], st)"
      by (intro shortest_loop_stop) auto
    then show ?thesis by simp
  next
    case True
    define r where "r = shortest_round nb multi st"
    have ok: "nodes_ok multi st" using inv by (simp add: sh_inv_def)
    have ys: "fst r = round_ys nb st"
      unfolding r_def by (rule shortest_round_ys[OF ok])
    have found: "snd (snd (snd r)) = (round_ys nb st \<noteq> [])"
      unfolding r_def using shortest_round_found[OF ok, of nb] "1.prems"(5) by simp
    have go: "shortest_loop G multi st =
        (fst r @ fst (shortest_loop G multi (snd r)), snd (shortest_loop G multi (snd r)))"
      unfolding r_def nb_def using True "1.prems"(5) by (intro shortest_loop_go) auto
    have len: "length p = Suc (if round_modus st then d1 else d0)"
      if "p \<in> set (sel (round_modus st) (fst st))" for p
      using that inv by (auto simp: sh_inv_def sel_def grow_def split: if_splits)
    have dys: "distinct (round_ys nb st)"
      unfolding round_ys_def
      by (rule distinct_round_ys[OF nd _ _ len]) (use "1.prems"(3,4) in \<open>simp_all add: sel_def\<close>)
    show ?thesis
    proof (cases "round_ys nb st = []")
      case False
      then have "shortest_loop G multi (snd r) = ([], snd r)"
        using found by (intro shortest_loop_stop) simp
      with go dys show ?thesis by (simp add: ys)
    next
      case empty: True
      have inv': "sh_inv (resolver G multi) multi s t (if round_modus st then d0 else Suc d0)
           (if round_modus st then Suc d1 else d1) (snd r)"
        unfolding r_def nb_def[symmetric] by (rule sh_inv_step[OF inv])
      have d': "distinct (fst (fst (snd r)))" "distinct (snd (fst (snd r)))"
        using shortest_round_distinct[OF nd "1.prems"(3,4), of multi] by (simp_all add: r_def)
      have nf: "\<not> snd (snd (snd r))" using found empty by simp
      have "distinct (fst (shortest_loop G multi (snd r)))"
        using "1.IH"[OF _ _ "1.prems"(1) inv' d' nf] True "1.prems"(5)
        by (simp add: r_def nb_def)
      then show ?thesis
        unfolding go by (simp add: ys empty)
    qed
  qed
qed

text \<open>
  \<open>no_parallel_edges\<close>: the parallel edges of a multigraph are collapsed, no node has two
  edges to the same neighbour.
\<close>

definition no_parallel_edges :: "'a graph \<Rightarrow> bool" where
  "no_parallel_edges G \<longleftrightarrow> (\<forall>n. distinct (map snd (edges_of G n)))"

lemma resolver_distinct:
  assumes "\<not> multi \<or> no_parallel_edges G"
  shows "nb_distinct (resolver G multi)"
proof (cases multi)
  case True
  with assms show ?thesis
    by (simp add: nb_distinct_def resolver_def neighbors_multi_map no_parallel_edges_def)
next
  case False
  then show ?thesis
    by (simp add: nb_distinct_def resolver_def neighbors_def adj_def successors_def
        predecessors_def)
qed

lemma reachable_spaths: "reachable G s t \<longleftrightarrow> (\<exists>n. spaths (arc G) s t n \<noteq> {})"
proof
  assume "reachable G s t"
  then obtain p where "walk (arc G) s t p"
    by (auto simp: reachable_iff_path is_path_def)
  from walk_shorten[OF this] obtain q where "walk (arc G) s t q" "distinct q" by auto
  then have "q \<in> spaths (arc G) s t (length q)" by (simp add: spaths_iff)
  then show "\<exists>n. spaths (arc G) s t n \<noteq> {}" by blast
next
  assume "\<exists>n. spaths (arc G) s t n \<noteq> {}"
  then obtain n q where "q \<in> spaths (arc G) s t n" by auto
  then show "reachable G s t"
    by (auto simp: reachable_iff_path is_path_def spaths_iff)
qed

lemma walk_min_distinct:
  assumes "walk R a b p" "\<And>q. walk R a b q \<Longrightarrow> length p \<le> length q"
  shows "distinct p"
proof (rule ccontr)
  assume "\<not> distinct p"
  then obtain xs ys zs y where p: "p = xs @ [y] @ ys @ [y] @ zs"
    using not_distinct_decomp by blast
  have "walk R a b (xs @ [y] @ zs)"
    using assms(1) unfolding p by (rule walk_cut)
  from assms(2)[OF this] show False by (simp add: p)
qed

lemma shortest_paths_spaths:
  assumes "spaths (arc G) s t k \<noteq> {}" "\<forall>n<k. spaths (arc G) s t n = {}"
  shows "shortest_paths G s t = spaths (arc G) s t k"
proof -
  have low: "k \<le> length q" if "walk (arc G) s t q" for q
  proof -
    from walk_shorten[OF that] obtain q' where q': "walk (arc G) s t q'" "distinct q'"
      "length q' \<le> length q" by auto
    then have "q' \<in> spaths (arc G) s t (length q')" by (simp add: spaths_iff)
    with assms(2) have "\<not> length q' < k" by auto
    with q'(3) show ?thesis by simp
  qed
  from assms(1) obtain r where "r \<in> spaths (arc G) s t k" by auto
  then have r: "walk (arc G) s t r" "length r = k"
    by (simp_all add: spaths_iff)
  show ?thesis
  proof (rule set_eqI, rule iffI)
    fix p
    assume "p \<in> shortest_paths G s t"
    then have p: "walk (arc G) s t p" "\<And>q. walk (arc G) s t q \<Longrightarrow> length p \<le> length q"
      by (simp_all add: shortest_paths_def is_path_def)
    from walk_min_distinct[OF p] have "distinct p" .
    moreover from p(2)[OF r(1)] low[OF p(1)] r(2) have "length p = k" by simp
    ultimately show "p \<in> spaths (arc G) s t k" using p(1) by (simp add: spaths_iff)
  next
    fix p
    assume "p \<in> spaths (arc G) s t k"
    then have "walk (arc G) s t p" "length p = k" by (simp_all add: spaths_iff)
    with low show "p \<in> shortest_paths G s t"
      by (simp add: shortest_paths_def is_path_def)
  qed
qed

lemma distance_spaths:
  assumes "spaths (arc G) s t k \<noteq> {}" "\<forall>n<k. spaths (arc G) s t n = {}"
  shows "Suc (distance G s t) = k"
proof -
  from assms(1) obtain r where r: "r \<in> spaths (arc G) s t k" by auto
  then have rs: "r \<in> shortest_paths G s t" by (simp add: shortest_paths_spaths[OF assms])
  from r have rk: "is_path G s t r" "length r = k" "r \<noteq> []"
    by (simp_all add: spaths_iff is_path_def walk_def)
  then obtain k' where k': "k = Suc k'" by (cases k) auto
  have "distance G s t = k'"
    unfolding distance_def
  proof (rule Least_equality)
    show "\<exists>p. is_path G s t p \<and> length p = Suc k'"
      using rk k' by (intro exI[of _ r]) simp
  next
    fix m
    assume "\<exists>p. is_path G s t p \<and> length p = Suc m"
    then obtain p where "is_path G s t p" "length p = Suc m" by auto
    with rs rk(2) k' show "k' \<le> m" by (auto simp: shortest_paths_def)
  qed
  with k' show ?thesis by simp
qed


section \<open>Endpoint validation\<close>

text \<open>
  Each public operation tests \<^verbatim>\<open>source not in G\<close> and \<^verbatim>\<open>target not in G\<close> before it
  dispatches, and is not itself a generator: the exception of a failed test is the result
  of the call (\<open>Inl\<close>), no generator is returned and nothing is traversed. Which exception
  it is depends on the node: \<open>NodeNotFound\<close> when the message can be built, that is for every
  node that is not a tuple and for tuples of length one, and \<open>TypeError\<close> otherwise.
\<close>

lemma endpoint_check:
  assumes "\<not> contains G source \<or> \<not> contains G target"
  shows "bidirectional_has_path tuple_len G source target
           = Inl (node_error tuple_len (if \<not> contains G source then source else target))"
    and "bidirectional_all_shortest_paths tuple_len G source target
           = Inl (node_error tuple_len (if \<not> contains G source then source else target))"
    and "bidirectional_all_simple_paths tuple_len G source target cutoff
           = Inl (node_error tuple_len (if \<not> contains G source then source else target))"
  using assms
  by (auto simp: bidirectional_has_path_def bidirectional_all_shortest_paths_def
      bidirectional_all_simple_paths_def)

lemma node_error_iff:
  "node_error tuple_len node = NodeNotFound \<longleftrightarrow> tuple_len node \<in> {None, Some 1}"
  by (auto simp: node_error_def format_arguments_def split: option.splits)

lemma node_error_plain: "node_error plain_node node = NodeNotFound"
  by (simp add: node_error_iff plain_node_def)

text \<open>\<open>Grid\<close>: two neighbouring points of a grid, named by their coordinates.\<close>

definition Grid :: "(nat \<times> nat) graph" where
  "Grid = \<lparr>g_nodes = [(0, 0), (0, 1)], g_edges = [((0, 0), (0, 1))],
            g_directed = False, g_multigraph = False\<rparr>"

text \<open>
  C7 does not hold of the code. The point \<open>(5, 5)\<close> is not a node of \<open>Grid\<close>, and each of the
  three public operations, called with it as the source, fails at the call with
  \<open>TypeError\<close> instead of \<open>NodeNotFound\<close>: the pair is taken for the two arguments of a
  format with one conversion.
\<close>

theorem node_not_found_type_error:
  "\<not> contains Grid (5, 5)
   \<and> bidirectional_has_path pair_node Grid (5, 5) (0, 0) = Inl TypeError
   \<and> bidirectional_all_shortest_paths pair_node Grid (5, 5) (0, 0) = Inl TypeError
   \<and> bidirectional_all_simple_paths pair_node Grid (5, 5) (0, 0) None = Inl TypeError
   \<and> bidirectional_has_path pair_node Grid (0, 0) (5, 5) = Inl TypeError"
  by (simp add: bidirectional_has_path_def bidirectional_all_shortest_paths_def
      bidirectional_all_simple_paths_def contains_def Grid_def node_error_def
      format_arguments_def pair_node_def)

section \<open>The public operations, unfolded\<close>

text \<open>
  The cutoff a call of \<^verbatim>\<open>bidirectional_all_simple_paths\<close> works with: \<^verbatim>\<open>len(G) - 1\<close> when
  none is given.
\<close>

definition effective_cutoff :: "'a graph \<Rightarrow> int option \<Rightarrow> int" where
  "effective_cutoff G cutoff = (case cutoff of None \<Rightarrow> len G - 1 | Some c \<Rightarrow> c)"

text \<open>
  Two example graphs: the complete graph on four nodes of the docstrings, and a directed
  multigraph in which node 1 cannot be reached from node 0.
\<close>

definition K4 :: "nat graph" where
  "K4 = \<lparr>g_nodes = [0, 1, 2, 3], g_edges = [(0, 1), (0, 2), (0, 3), (1, 2), (1, 3), (2, 3)],
          g_directed = False, g_multigraph = False\<rparr>"

definition DM :: "nat graph" where
  "DM = \<lparr>g_nodes = [0, 1, 2, 3], g_edges = [(0, 2), (0, 3), (1, 2)],
          g_directed = True, g_multigraph = True\<rparr>"

lemma all_simple_paths_eq:
  assumes "contains G source" "contains G target"
  shows "bidirectional_all_simple_paths tuple_len G source target cutoff =
     Inr (if effective_cutoff G cutoff < 1 then []
          else simple_rounds (resolver G (g_multigraph G)) (nat (effective_cutoff G cutoff))
                 ([(source, [[source]])], [(target, [[target]])]), None)"
  using assms
  by (simp add: bidirectional_all_simple_paths_def priv_bidirectional_all_simple_paths_def
      priv_bidirectional_all_simple_paths_multi_def effective_cutoff_def resolver_def Let_def)

lemma all_simple_paths_yields:
  assumes "contains G source" "contains G target"
  shows "yields_of (bidirectional_all_simple_paths tuple_len G source target cutoff) =
     set (simple_rounds (resolver G (g_multigraph G)) (nat (effective_cutoff G cutoff))
                 ([(source, [[source]])], [(target, [[target]])]))"
proof (cases "effective_cutoff G cutoff < 1")
  case True
  then have "nat (effective_cutoff G cutoff) = 0" by simp
  with True show ?thesis
    by (simp add: all_simple_paths_eq[OF assms] yields_of_def)
next
  case False
  then show ?thesis
    by (simp add: all_simple_paths_eq[OF assms] yields_of_def)
qed

lemma all_shortest_paths_eq:
  assumes "contains G source" "contains G target"
  shows "bidirectional_all_shortest_paths tuple_len G source target =
     Inr (shortest_finish (shortest_loop G (g_multigraph G)
            (([[source]], [[target]]),
             (if g_multigraph G then ([], []) else ([source], [target])), False)))"
  using assms
  by (simp add: bidirectional_all_shortest_paths_def priv_bidirectional_all_shortest_paths_def
      priv_bidirectional_all_shortest_paths_multi_def)

lemma all_simple_paths_spaths:
  assumes "contains G source" "contains G target" "\<not> (g_multigraph G \<and> g_directed G)"
  shows "yields_of (bidirectional_all_simple_paths tuple_len G source target cutoff) =
     (\<Union>k \<in> {2 ..< 2 + nat (effective_cutoff G cutoff)}. spaths (arc G) source target k)"
  using simple_rounds_complete[where s = source and t = target
      and n = "nat (effective_cutoff G cutoff)", OF sp_inv_init resolver_follows[OF assms(3)]]
  by (simp add: all_simple_paths_yields[OF assms(1,2)] numeral_2_eq_2)

lemma spaths_bounds:
  assumes "wf_graph G" "contains G s" "s \<noteq> t" "q \<in> spaths (arc G) s t k"
  shows "2 \<le> k \<and> int k \<le> len G"
proof -
  have "\<not> k \<le> 1" using spaths_short[OF assms(3), of k "arc G"] assms(4) by auto
  moreover have "q \<in> simple_paths G s t" "length q = k"
    using assms(4) by (auto simp: simple_paths_spaths spaths_def)
  then have "int k \<le> len G"
    using simple_path_length[OF assms(1,2)] by auto
  ultimately show ?thesis by simp
qed

lemma simple_paths_bounded:
  assumes "wf_graph G" "contains G s" "s \<noteq> t"
  shows "simple_paths G s t = (\<Union>k \<in> {2 ..< 2 + nat (len G - 1)}. spaths (arc G) s t k)"
proof (rule set_eqI, rule iffI)
  fix q
  assume "q \<in> simple_paths G s t"
  then obtain k where k: "q \<in> spaths (arc G) s t k"
    by (auto simp: simple_paths_spaths)
  from spaths_bounds[OF assms k] have "k \<in> {2 ..< 2 + nat (len G - 1)}" by auto
  with k show "q \<in> (\<Union>k \<in> {2 ..< 2 + nat (len G - 1)}. spaths (arc G) s t k)" by (intro UN_I)
next
  fix q
  assume "q \<in> (\<Union>k \<in> {2 ..< 2 + nat (len G - 1)}. spaths (arc G) s t k)"
  then show "q \<in> simple_paths G s t" by (auto simp: simple_paths_spaths)
qed

section \<open>Facts about the example graphs\<close>

text \<open>A graph with two components.\<close>

definition TwoParts :: "nat graph" where
  "TwoParts = \<lparr>g_nodes = [0, 1, 2, 3], g_edges = [(0, 1), (2, 3)],
                g_directed = False, g_multigraph = False\<rparr>"

lemma TwoParts_unreachable: "\<not> reachable TwoParts 0 3"
proof
  assume "reachable TwoParts 0 3"
  then have "(arc TwoParts)\<^sup>*\<^sup>* 0 3" by (simp add: reachable_def)
  then have "(3::nat) \<in> {0, 1}"
    by (induction rule: rtranclp_induct) (auto simp: arc_def TwoParts_def)
  then show False by simp
qed

lemma K4_wf: "wf_graph K4"
  by (simp add: wf_graph_def K4_def contains_def)

lemma DM_wf: "wf_graph DM"
  by (simp add: wf_graph_def DM_def contains_def)

lemma DM_arc: "arc DM u v \<longleftrightarrow> (u, v) \<in> {(0, 2), (0, 3), (1, 2)}"
  by (simp add: arc_def DM_def)

lemma DM_unreachable: "\<not> reachable DM 0 1"
proof
  assume "reachable DM 0 1"
  then have "(arc DM)\<^sup>*\<^sup>* 0 1" by (simp add: reachable_def)
  then have "(1::nat) \<in> {0, 2, 3}"
    by (induction rule: rtranclp_induct) (auto simp: DM_arc)
  then show False by simp
qed

lemma DM_simple_run: "bidirectional_all_simple_paths plain_node DM 0 1 None = Inr ([[0, 2, 1]], None)"
  by code_simp

lemma K4_simple_run:
  "bidirectional_all_simple_paths plain_node K4 0 3 None =
     Inr ([[0, 3], [0, 1, 3], [0, 2, 3], [0, 1, 2, 3], [0, 2, 1, 3]], None)"
  by code_simp

section \<open>All simple paths: what is yielded\<close>

text \<open>
  C3. For every graph, nodes \<open>source\<close> and \<open>target\<close> of it and every cutoff (in particular
  every cutoff \<open>\<ge> 1\<close>; with none given, \<^verbatim>\<open>len(G) - 1\<close>), consuming
  \<^verbatim>\<open>bidirectional_all_simple_paths\<close> ends normally, each yielded list is a non-empty
  sequence of distinct nodes that starts at \<open>source\<close> and ends at \<open>target\<close>, its number of
  edges (its length minus one) is at most the cutoff, and the lists are yielded in
  non-decreasing order of length.
\<close>

theorem all_simple_paths_sound:
  assumes "contains G source" "contains G target"
  shows "\<exists>ys. bidirectional_all_simple_paths tuple_len G source target cutoff = Inr (ys, None)
     \<and> (\<forall>q \<in> set ys. distinct q \<and> q \<noteq> [] \<and> hd q = source \<and> last q = target
            \<and> int (length q) - 1 \<le> effective_cutoff G cutoff)
     \<and> sorted (map length ys)"
proof (cases "effective_cutoff G cutoff < 1")
  case True
  then show ?thesis
    by (simp add: all_simple_paths_eq[OF assms])
next
  case False
  define n where "n = nat (effective_cutoff G cutoff)"
  define ys where "ys = simple_rounds (resolver G (g_multigraph G)) n
                 ([(source, [[source]])], [(target, [[target]])])"
  have eq: "bidirectional_all_simple_paths tuple_len G source target cutoff = Inr (ys, None)"
    using False by (simp add: all_simple_paths_eq[OF assms] ys_def n_def)
  from simple_rounds_sound[where nb = "resolver G (g_multigraph G)" and s = source
      and t = target and n = n, OF sp_inv_init]
  have s: "\<forall>q \<in> set ys. distinct q \<and> hd q = source \<and> last q = target \<and> 2 \<le> length q
          \<and> length q \<le> 1 + n"
    and srt: "sorted (map length ys)"
    by (auto simp: ys_def)
  have "distinct q \<and> q \<noteq> [] \<and> hd q = source \<and> last q = target
            \<and> int (length q) - 1 \<le> effective_cutoff G cutoff" if "q \<in> set ys" for q
  proof -
    from s that have *: "distinct q" "hd q = source" "last q = target" "2 \<le> length q"
      "length q \<le> 1 + n" by auto
    from *(4) have "q \<noteq> []" by auto
    moreover from *(5) False have "int (length q) - 1 \<le> effective_cutoff G cutoff"
      by (simp add: n_def)
    ultimately show ?thesis using * by simp
  qed
  with eq srt show ?thesis by (intro exI[of _ ys]) simp
qed

theorem all_simple_paths_sound_witness:
  "contains K4 0 \<and> contains K4 3
   \<and> bidirectional_all_simple_paths plain_node K4 0 3 (Some 2) = Inr ([[0, 3], [0, 1, 3], [0, 2, 3]], None)
   \<and> distinct [0, 1, 3 :: nat] \<and> hd [0, 1, 3 :: nat] = 0 \<and> last [0, 1, 3 :: nat] = 3
   \<and> int (length [0, 1, 3 :: nat]) - 1 \<le> effective_cutoff K4 (Some 2)
   \<and> sorted (map length [[0, 3], [0, 1, 3], [0, 2, 3 :: nat]])"
proof -
  have c: "contains K4 0" "contains K4 3" by (simp_all add: contains_def K4_def)
  have e: "bidirectional_all_simple_paths plain_node K4 0 3 (Some 2) = Inr ([[0, 3], [0, 1, 3], [0, 2, 3]], None)"
    by code_simp
  from all_simple_paths_sound[OF c, where cutoff = "Some 2" and tuple_len = plain_node] show ?thesis
    unfolding e using c by simp
qed

section \<open>Equal endpoints\<close>

text \<open>
  C10. When source and target are the same node \<open>s\<close> of the graph, no operation produces
  the zero-length path \<open>[s]\<close>: \<^verbatim>\<open>bidirectional_all_simple_paths\<close> yields nothing, for any
  cutoff, and \<^verbatim>\<open>bidirectional_all_shortest_paths\<close> yields nothing and raises
  \<open>NoPath\<close>. Both partial paths of a candidate meeting contain \<open>s\<close>, so the disjointness
  test rejects every one of them.
\<close>

theorem same_endpoint_yields_nothing:
  assumes "contains G s"
  shows "bidirectional_all_simple_paths tuple_len G s s cutoff = Inr ([], None)
       \<and> bidirectional_all_shortest_paths tuple_len G s s = Inr ([], Some NoPath)"
proof -
  have "simple_rounds (resolver G (g_multigraph G)) n ([(s, [[s]])], [(s, [[s]])]) = []" for n
    by (rule simple_rounds_same_anchor[OF sp_inv_init])
  then have 1: "bidirectional_all_simple_paths tuple_len G s s cutoff = Inr ([], None)"
    by (simp add: all_simple_paths_eq[OF assms assms])
  have "fst (shortest_loop G (g_multigraph G) (([[s]], [[s]]),
             (if g_multigraph G then ([], []) else ([s], [s])), False)) = []
      \<and> \<not> snd (snd (snd (shortest_loop G (g_multigraph G) (([[s]], [[s]]),
             (if g_multigraph G then ([], []) else ([s], [s])), False))))"
    by (rule shortest_loop_same_anchor[OF sh_inv_init]) simp
  then have 2: "bidirectional_all_shortest_paths tuple_len G s s = Inr ([], Some NoPath)"
    by (simp add: all_shortest_paths_eq[OF assms assms] shortest_finish_def)
  from 1 2 show ?thesis by simp
qed

theorem same_endpoint_yields_nothing_witness:
  "contains K4 2
   \<and> bidirectional_all_simple_paths plain_node K4 2 2 None = Inr ([], None)
   \<and> bidirectional_all_shortest_paths plain_node K4 2 2 = Inr ([], Some NoPath)"
proof -
  have c: "contains K4 2" by (simp add: contains_def K4_def)
  from same_endpoint_yields_nothing[OF c, where cutoff = None and tuple_len = plain_node] c show ?thesis by simp
qed


section \<open>All simple paths: completeness\<close>

text \<open>
  C5 (amended). For every well-formed graph that is not a directed multigraph and distinct
  nodes \<open>source\<close> and \<open>target\<close> of it, the set of paths
  \<^verbatim>\<open>bidirectional_all_simple_paths\<close> yields with the default cutoff is the set of all
  simple paths from \<open>source\<close> to \<open>target\<close>, and so is the union of the sets yielded for
  the cutoffs 1 to \<^verbatim>\<open>len(G) - 1\<close>.
\<close>

theorem all_simple_paths_complete:
  assumes "contains G source" "contains G target" "source \<noteq> target" "wf_graph G"
    "\<not> (g_multigraph G \<and> g_directed G)"
  shows "yields_of (bidirectional_all_simple_paths tuple_len G source target None)
           = simple_paths G source target
       \<and> (\<Union>c \<in> {1 .. len G - 1}.
            yields_of (bidirectional_all_simple_paths tuple_len G source target (Some c)))
           = simple_paths G source target"
proof -
  note sp = simple_paths_bounded[OF assms(4,1,3)]
  have 1: "yields_of (bidirectional_all_simple_paths tuple_len G source target None)
           = simple_paths G source target"
    unfolding sp all_simple_paths_spaths[OF assms(1,2,5)] by (simp add: effective_cutoff_def)
  have sub: "yields_of (bidirectional_all_simple_paths tuple_len G source target (Some c))
           \<subseteq> simple_paths G source target" for c
    unfolding all_simple_paths_spaths[OF assms(1,2,5)] by (auto simp: simple_paths_spaths)
  have "card {source, target} \<le> card (set (g_nodes G))"
    using assms(1,2) by (intro card_mono) (simp_all add: contains_def)
  then have "2 \<le> len G"
    using assms(3) by (simp add: len_def length_remdups_card_conv)
  then have "len G - 1 \<in> {1 .. len G - 1}" by simp
  moreover have "yields_of (bidirectional_all_simple_paths tuple_len G source target (Some (len G - 1)))
           = simple_paths G source target"
    unfolding sp all_simple_paths_spaths[OF assms(1,2,5)] by (simp add: effective_cutoff_def)
  ultimately have 2: "(\<Union>c \<in> {1 .. len G - 1}.
            yields_of (bidirectional_all_simple_paths tuple_len G source target (Some c)))
           = simple_paths G source target"
    using sub by blast
  from 1 2 show ?thesis by simp
qed


theorem all_simple_paths_complete_witness:
  "contains K4 0 \<and> contains K4 3 \<and> (0::nat) \<noteq> 3 \<and> wf_graph K4
   \<and> \<not> (g_multigraph K4 \<and> g_directed K4)
   \<and> simple_paths K4 0 3 = {[0, 3], [0, 1, 3], [0, 2, 3], [0, 1, 2, 3], [0, 2, 1, 3]}
   \<and> (\<Union>c \<in> {1 .. len K4 - 1}. yields_of (bidirectional_all_simple_paths plain_node K4 0 3 (Some c)))
       = simple_paths K4 0 3"
proof -
  have c: "contains K4 0" "contains K4 3" by (simp_all add: contains_def K4_def)
  have k: "\<not> (g_multigraph K4 \<and> g_directed K4)" by (simp add: K4_def)
  have n: "(0::nat) \<noteq> 3" by simp
  from all_simple_paths_complete[OF c n K4_wf k, where tuple_len = plain_node] c k K4_wf show ?thesis
    by (auto simp: K4_simple_run yields_of_def)
qed

text \<open>
  C5 as stated fails in two ways. In the directed multigraph \<open>DM\<close> the target side follows
  the edges that leave a node, so the call yields \<open>[0, 2, 1]\<close>, which is not a path of
  the graph. And for equal endpoints the one simple path \<open>[s]\<close> is never yielded.
\<close>

theorem all_simple_paths_complete_counterexample:
  "contains DM 0 \<and> contains DM 1 \<and> wf_graph DM
   \<and> [0, 2, 1] \<in> yields_of (bidirectional_all_simple_paths plain_node DM 0 1 None)
   \<and> [0, 2, 1] \<notin> simple_paths DM 0 1
   \<and> contains K4 2 \<and> wf_graph K4
   \<and> [2] \<in> simple_paths K4 2 2
   \<and> [2] \<notin> yields_of (bidirectional_all_simple_paths plain_node K4 2 2 None)"
proof -
  have "[0, 2, 1] \<notin> simple_paths DM 0 1"
    by (simp add: simple_paths_def is_path_def walk_def DM_arc)
  moreover have "[2] \<in> simple_paths K4 2 2"
    by (simp add: simple_paths_def is_path_def walk_def)
  moreover have "bidirectional_all_simple_paths plain_node K4 2 2 None = Inr ([], None)"
    by code_simp
  then have "[2] \<notin> yields_of (bidirectional_all_simple_paths plain_node K4 2 2 None)"
    by (simp add: yields_of_def)
  moreover have "[0, 2, 1] \<in> yields_of (bidirectional_all_simple_paths plain_node DM 0 1 None)"
    unfolding DM_simple_run by (simp add: yields_of_def)
  moreover have "contains DM 0" "contains DM 1" "contains K4 2"
    by (simp_all add: contains_def DM_def K4_def)
  ultimately show ?thesis
    using K4_wf DM_wf by blast
qed

section \<open>All simple paths: no error\<close>

text \<open>
  C9 (amended). For every graph and nodes \<open>source\<close> and \<open>target\<close> of it, consuming
  \<^verbatim>\<open>bidirectional_all_simple_paths\<close> never raises; with a cutoff below 1 it yields nothing;
  and when the graph is not a directed multigraph and \<open>target\<close> cannot be reached from
  \<open>source\<close>, it yields nothing.
\<close>

theorem all_simple_paths_never_raises:
  assumes "contains G source" "contains G target"
  shows "(\<exists>ys. bidirectional_all_simple_paths tuple_len G source target cutoff = Inr (ys, None))
       \<and> (effective_cutoff G cutoff < 1 \<longrightarrow>
            bidirectional_all_simple_paths tuple_len G source target cutoff = Inr ([], None))
       \<and> (\<not> (g_multigraph G \<and> g_directed G) \<longrightarrow> \<not> reachable G source target \<longrightarrow>
            bidirectional_all_simple_paths tuple_len G source target cutoff = Inr ([], None))"
proof -
  have "bidirectional_all_simple_paths tuple_len G source target cutoff = Inr ([], None)"
    if ok: "\<not> (g_multigraph G \<and> g_directed G)" and nr: "\<not> reachable G source target"
  proof -
    have "spaths (arc G) source target k = {}" for k
      using nr by (auto simp: reachable_iff_path is_path_def spaths_iff)
    then have "yields_of (bidirectional_all_simple_paths tuple_len G source target cutoff) = {}"
      by (simp add: all_simple_paths_spaths[OF assms ok])
    then show ?thesis
      by (simp add: all_simple_paths_eq[OF assms] yields_of_def split: if_splits)
  qed
  then show ?thesis
    by (simp add: all_simple_paths_eq[OF assms])
qed

theorem all_simple_paths_never_raises_witness:
  "contains TwoParts 0 \<and> contains TwoParts 3
   \<and> effective_cutoff TwoParts (Some 0) < 1
   \<and> bidirectional_all_simple_paths plain_node TwoParts 0 3 (Some 0) = Inr ([], None)
   \<and> \<not> (g_multigraph TwoParts \<and> g_directed TwoParts) \<and> \<not> reachable TwoParts 0 3
   \<and> bidirectional_all_simple_paths plain_node TwoParts 0 3 None = Inr ([], None)"
proof -
  have c: "contains TwoParts 0" "contains TwoParts 3"
    by (simp_all add: contains_def TwoParts_def)
  have k: "\<not> (g_multigraph TwoParts \<and> g_directed TwoParts)" by (simp add: TwoParts_def)
  have e: "effective_cutoff TwoParts (Some 0) < 1" by (simp add: effective_cutoff_def)
  from all_simple_paths_never_raises[OF c, where cutoff = "Some 0" and tuple_len = plain_node]
    all_simple_paths_never_raises[OF c, where cutoff = None and tuple_len = plain_node] c k e TwoParts_unreachable
  show ?thesis by simp
qed

text \<open>
  C9 as stated fails for the directed multigraph \<open>DM\<close>: node 1 cannot be reached from node 0,
  and yet the call yields \<open>[0, 2, 1]\<close>.
\<close>

theorem all_simple_paths_never_raises_counterexample:
  "contains DM 0 \<and> contains DM 1 \<and> \<not> reachable DM 0 1
   \<and> bidirectional_all_simple_paths plain_node DM 0 1 None = Inr ([[0, 2, 1]], None)"
proof -
  have "contains DM 0" "contains DM 1" by (simp_all add: contains_def DM_def)
  with DM_unreachable DM_simple_run show ?thesis by blast
qed


section \<open>All shortest paths\<close>

text \<open>
  \<open>shortest_exit\<close>: the state in which a call of \<^verbatim>\<open>bidirectional_all_shortest_paths\<close>
  leaves its \<^verbatim>\<open>while\<close> loop. The example graphs: \<open>PE\<close>, a multigraph with a parallel
  edge; \<open>DM2\<close>, a directed multigraph in which node 1 is reached from node 0 only over
  nodes 3 and 4; \<open>Lonely\<close>, whose node 0 has no edge; \<open>Cyc\<close>, a cycle of four nodes.
\<close>

definition shortest_exit :: "'a graph \<Rightarrow> 'a \<Rightarrow> 'a \<Rightarrow> 'a sh_state" where
  "shortest_exit G source target =
     snd (shortest_loop G (g_multigraph G)
            (([[source]], [[target]]),
             (if g_multigraph G then ([], []) else ([source], [target])), False))"

definition PE :: "nat graph" where
  "PE = \<lparr>g_nodes = [0, 1], g_edges = [(0, 1), (0, 1)], g_directed = False, g_multigraph = True\<rparr>"

definition DM2 :: "nat graph" where
  "DM2 = \<lparr>g_nodes = [0, 1, 2, 3, 4], g_edges = [(0, 2), (0, 3), (1, 2), (3, 4), (4, 1)],
           g_directed = True, g_multigraph = True\<rparr>"

definition Lonely :: "nat graph" where
  "Lonely = \<lparr>g_nodes = [0, 1, 2], g_edges = [(1, 2)], g_directed = False, g_multigraph = False\<rparr>"

definition Cyc :: "nat graph" where
  "Cyc = \<lparr>g_nodes = [0, 1, 2, 3], g_edges = [(0, 1), (1, 2), (2, 3), (3, 0)],
           g_directed = False, g_multigraph = False\<rparr>"

lemma Cyc_reachable: "reachable Cyc 0 2"
proof -
  have "is_path Cyc 0 2 [0, 1, 2]"
    by (simp add: is_path_def walk_def arc_def Cyc_def)
  then show ?thesis unfolding reachable_iff_path by (rule exI)
qed

lemma Cyc_shortest_run:
  "bidirectional_all_shortest_paths plain_node Cyc 0 2 = Inr ([[0, 1, 2], [0, 3, 2]], None)"
  by code_simp

lemma all_shortest_paths_result:
  assumes "contains G source" "contains G target" "source \<noteq> target"
    "\<not> (g_multigraph G \<and> g_directed G)"
  shows "sh_result (arc G) source target
     (shortest_loop G (g_multigraph G)
            (([[source]], [[target]]),
             (if g_multigraph G then ([], []) else ([source], [target])), False))"
proof (rule shortest_loop_correct[OF resolver_follows[OF assms(4)] sh_inv_init])
  show "\<not> snd (snd (([[source]], [[target]]),
             (if g_multigraph G then ([], []) else ([source], [target])), False))"
    by simp
  show "\<forall>n \<le> 0 + 0 + 1. spaths (arc G) source target n = {}"
    using spaths_short[OF assms(3)] by simp
qed

lemma PE_run: "bidirectional_all_shortest_paths plain_node PE 0 1 = Inr ([[0, 1], [0, 1]], None)"
  by code_simp

lemma DM2_run: "bidirectional_all_shortest_paths plain_node DM2 0 1 = Inr ([[0, 2, 1]], None)"
  by code_simp

lemma K4_same_run: "bidirectional_all_shortest_paths plain_node K4 2 2 = Inr ([], Some NoPath)"
  by code_simp

lemma PE_reachable: "reachable PE 0 1"
proof -
  have "is_path PE 0 1 [0, 1]"
    by (simp add: is_path_def walk_def arc_def PE_def)
  then show ?thesis unfolding reachable_iff_path by (rule exI)
qed

lemma DM2_reachable: "reachable DM2 0 1"
proof -
  have "is_path DM2 0 1 [0, 3, 4, 1]"
    by (simp add: is_path_def walk_def arc_def DM2_def)
  then show ?thesis unfolding reachable_iff_path by (rule exI)
qed

lemma reachable_refl: "reachable G s s"
  by (simp add: reachable_def)

lemma DM_shortest_run: "bidirectional_all_shortest_paths plain_node DM 0 1 = Inr ([[0, 2, 1]], None)"
  by code_simp

lemma Lonely_run: "bidirectional_all_shortest_paths plain_node Lonely 0 1 = Inr ([], Some NoPath)"
  by code_simp

lemma Lonely_exit: "snd (fst (shortest_exit Lonely 0 1)) = [[1]]"
  by code_simp

text \<open>
  C2 (amended). For every graph that is not a directed multigraph and distinct nodes
  \<open>source\<close> and \<open>target\<close> of it between which a path exists, consuming
  \<^verbatim>\<open>bidirectional_all_shortest_paths\<close> ends normally, the set of yielded paths is the set of
  all minimum-length paths from \<open>source\<close> to \<open>target\<close>, every yielded path has as many edges
  as the distance from \<open>source\<close> to \<open>target\<close>, and no path is yielded twice when the graph
  is a simple graph or a multigraph whose parallel edges are collapsed.
\<close>

theorem all_shortest_paths_correct:
  assumes "contains G source" "contains G target" "source \<noteq> target"
    "\<not> (g_multigraph G \<and> g_directed G)" "reachable G source target"
  shows "\<exists>ys. bidirectional_all_shortest_paths tuple_len G source target = Inr (ys, None)
     \<and> set ys = shortest_paths G source target
     \<and> (\<forall>p \<in> set ys. length p = Suc (distance G source target))
     \<and> (\<not> g_multigraph G \<or> no_parallel_edges G \<longrightarrow> distinct ys)"
proof -
  define g where "g = shortest_loop G (g_multigraph G)
            (([[source]], [[target]]),
             (if g_multigraph G then ([], []) else ([source], [target])), False)"
  have res: "sh_result (arc G) source target g"
    unfolding g_def by (rule all_shortest_paths_result[OF assms(1-4)])
  from assms(5) have "\<not> (\<forall>n. spaths (arc G) source target n = {})"
    by (simp add: reachable_spaths)
  with res obtain k where k: "set (fst g) = spaths (arc G) source target k"
    "fst g \<noteq> []" "\<forall>n<k. spaths (arc G) source target n = {}" "snd (snd (snd g))"
    unfolding sh_result_def by auto
  from k(1,2) have ne: "spaths (arc G) source target k \<noteq> {}" by (cases "fst g") auto
  have eq: "bidirectional_all_shortest_paths tuple_len G source target = Inr (fst g, None)"
    using k(4) by (simp add: all_shortest_paths_eq[OF assms(1,2)] shortest_finish_def g_def)
  have 1: "set (fst g) = shortest_paths G source target"
    using shortest_paths_spaths[OF ne k(3)] k(1) by simp
  have 2: "\<forall>p \<in> set (fst g). length p = Suc (distance G source target)"
    using distance_spaths[OF ne k(3)] k(1) by (auto simp: spaths_def)
  have 3: "distinct (fst g)" if "\<not> g_multigraph G \<or> no_parallel_edges G"
    unfolding g_def
    by (rule shortest_loop_distinct[OF resolver_distinct[OF that] sh_inv_init]) simp_all
  from eq 1 2 3 show ?thesis by (intro exI[of _ "fst g"]) simp
qed


theorem all_shortest_paths_correct_witness:
  "contains Cyc 0 \<and> contains Cyc 2 \<and> (0::nat) \<noteq> 2
   \<and> \<not> (g_multigraph Cyc \<and> g_directed Cyc) \<and> reachable Cyc 0 2 \<and> \<not> g_multigraph Cyc
   \<and> bidirectional_all_shortest_paths plain_node Cyc 0 2 = Inr ([[0, 1, 2], [0, 3, 2]], None)
   \<and> shortest_paths Cyc 0 2 = {[0, 1, 2], [0, 3, 2]}
   \<and> distance Cyc 0 2 = 2
   \<and> distinct [[0, 1, 2], [0, 3, 2 :: nat]]"
proof -
  have c: "contains Cyc 0" "contains Cyc 2" by (simp_all add: contains_def Cyc_def)
  have k: "\<not> (g_multigraph Cyc \<and> g_directed Cyc)" "\<not> g_multigraph Cyc"
    by (simp_all add: Cyc_def)
  have n: "(0::nat) \<noteq> 2" by simp
  from all_shortest_paths_correct[OF c n k(1) Cyc_reachable, where tuple_len = plain_node]
  obtain ys where ys: "bidirectional_all_shortest_paths plain_node Cyc 0 2 = Inr (ys, None)"
    "set ys = shortest_paths Cyc 0 2" "\<forall>p \<in> set ys. length p = Suc (distance Cyc 0 2)"
    by (elim exE conjE)
  from ys(1) have e: "ys = [[0, 1, 2], [0, 3, 2]]"
    unfolding Cyc_shortest_run by simp
  have 1: "shortest_paths Cyc 0 2 = {[0, 1, 2], [0, 3, 2]}"
    using ys(2) unfolding e by simp
  have "length [0, 1, 2 :: nat] = Suc (distance Cyc 0 2)"
    using ys(3) unfolding e by simp
  then have 2: "distance Cyc 0 2 = 2" by simp
  from 1 2 c k Cyc_reachable Cyc_shortest_run show ?thesis by simp
qed

text \<open>
  C2 as stated fails in three ways: the multigraph engine yields a path once per parallel
  edge (\<open>PE\<close>); on a directed multigraph the target side follows outgoing edges, so \<open>DM2\<close>
  yields \<open>[0, 2, 1]\<close>, not a path, instead of \<open>[0, 3, 4, 1]\<close>; and for equal endpoints
  the shortest path \<open>[s]\<close> is not yielded.
\<close>

theorem all_shortest_paths_correct_counterexample:
  "contains PE 0 \<and> contains PE 1 \<and> reachable PE 0 1
   \<and> bidirectional_all_shortest_paths plain_node PE 0 1 = Inr ([[0, 1], [0, 1]], None)
   \<and> \<not> distinct [[0, 1], [0, 1 :: nat]]
   \<and> contains DM2 0 \<and> contains DM2 1 \<and> reachable DM2 0 1
   \<and> bidirectional_all_shortest_paths plain_node DM2 0 1 = Inr ([[0, 2, 1]], None)
   \<and> [0, 2, 1] \<notin> shortest_paths DM2 0 1
   \<and> contains K4 2 \<and> reachable K4 2 2
   \<and> bidirectional_all_shortest_paths plain_node K4 2 2 = Inr ([], Some NoPath)
   \<and> [2] \<in> shortest_paths K4 2 2"
proof -
  have "[0, 2, 1] \<notin> shortest_paths DM2 0 1"
    by (simp add: shortest_paths_def is_path_def walk_def arc_def DM2_def)
  moreover have "[2] \<in> shortest_paths K4 2 2"
    by (auto simp: shortest_paths_def is_path_def walk_def Suc_le_eq)
  moreover have "contains PE 0" "contains PE 1" "contains DM2 0" "contains DM2 1" "contains K4 2"
    by (simp_all add: contains_def PE_def DM2_def K4_def)
  moreover have "\<not> distinct [[0, 1], [0, 1 :: nat]]" by simp
  ultimately show ?thesis
    using PE_run DM2_run K4_same_run PE_reachable DM2_reachable reachable_refl[of K4 2]
    by blast
qed

text \<open>
  C4 (amended). For every graph and nodes \<open>source\<close> and \<open>target\<close> of it, a call of
  \<^verbatim>\<open>bidirectional_all_shortest_paths\<close> returns a generator whose consumption ends
  normally or with \<open>NoPath\<close>; \<open>NoPath\<close> is raised only when nothing was yielded and the
  loop was left with one of the two trees empty; when the graph is not a directed
  multigraph and \<open>source \<noteq> target\<close>, it is raised if and only if no path from \<open>source\<close> to
  \<open>target\<close> exists. \<^verbatim>\<open>bidirectional_has_path\<close> and \<^verbatim>\<open>bidirectional_all_simple_paths\<close>
  never raise it.
\<close>

theorem no_path_error:
  assumes "contains G source" "contains G target"
  shows "\<exists>ys r. bidirectional_all_shortest_paths tuple_len G source target = Inr (ys, r)
     \<and> (r = None \<or> r = Some NoPath)
     \<and> (r = Some NoPath \<longrightarrow> ys = []
          \<and> (fst (fst (shortest_exit G source target)) = []
             \<or> snd (fst (shortest_exit G source target)) = []))
     \<and> (source \<noteq> target \<longrightarrow> \<not> (g_multigraph G \<and> g_directed G) \<longrightarrow>
          (r = Some NoPath \<longleftrightarrow> \<not> reachable G source target))
     \<and> bidirectional_has_path tuple_len G source target \<noteq> Inl NoPath
     \<and> (\<forall>cutoff. \<exists>zs. bidirectional_all_simple_paths tuple_len G source target cutoff = Inr (zs, None))"
proof -
  define st0 where "st0 = (([[source]], [[target]]),
             (if g_multigraph G then ([], []) else ([source], [target])), False)"
  define g where "g = shortest_loop G (g_multigraph G) st0"
  define r where "r = (if \<not> snd (snd (snd g)) then Some NoPath else None)"
  have eq: "bidirectional_all_shortest_paths tuple_len G source target = Inr (fst g, r)"
    by (simp add: all_shortest_paths_eq[OF assms] shortest_finish_def g_def r_def st0_def)
  have ex: "shortest_exit G source target = snd g"
    by (simp add: shortest_exit_def g_def st0_def)
  have ok0: "nodes_ok (g_multigraph G) st0"
    by (simp add: nodes_ok_def st0_def)
  have fi: "snd (snd (snd g)) = (fst g \<noteq> [])"
    unfolding g_def by (rule shortest_loop_found_iff[OF ok0]) (simp add: st0_def)
  have exit: "snd (snd (snd g)) \<or> fst (fst (snd g)) = [] \<or> snd (fst (snd g)) = []"
    unfolding g_def by (rule shortest_loop_exit)
  have 1: "r = None \<or> r = Some NoPath" by (simp add: r_def)
  have 2: "r = Some NoPath \<longrightarrow> fst g = []
          \<and> (fst (fst (shortest_exit G source target)) = []
             \<or> snd (fst (shortest_exit G source target)) = [])"
    using fi exit by (auto simp: r_def ex)
  have 3: "r = Some NoPath \<longleftrightarrow> \<not> reachable G source target"
    if "source \<noteq> target" "\<not> (g_multigraph G \<and> g_directed G)"
  proof -
    have "sh_result (arc G) source target g"
      unfolding g_def st0_def by (rule all_shortest_paths_result[OF assms that])
    then show ?thesis
      unfolding reachable_spaths sh_result_def r_def
      by (cases "fst g") (auto simp: fi)
  qed
  have 4: "bidirectional_has_path tuple_len G source target \<noteq> Inl NoPath"
    by (simp add: bidirectional_has_path_def node_error_def)
  have 5: "\<exists>zs. bidirectional_all_simple_paths tuple_len G source target cutoff = Inr (zs, None)" for cutoff
    by (simp add: all_simple_paths_eq[OF assms])
  from eq 1 2 3 4 5 show ?thesis
    by (intro exI[of _ "fst g"] exI[of _ r]) simp
qed


theorem no_path_error_witness:
  "contains TwoParts 0 \<and> contains TwoParts 3 \<and> (0::nat) \<noteq> 3
   \<and> \<not> (g_multigraph TwoParts \<and> g_directed TwoParts) \<and> \<not> reachable TwoParts 0 3
   \<and> bidirectional_all_shortest_paths plain_node TwoParts 0 3 = Inr ([], Some NoPath)
   \<and> (fst (fst (shortest_exit TwoParts 0 3)) = [] \<or> snd (fst (shortest_exit TwoParts 0 3)) = [])
   \<and> bidirectional_has_path plain_node TwoParts 0 3 \<noteq> Inl NoPath
   \<and> bidirectional_all_simple_paths plain_node TwoParts 0 3 None = Inr ([], None)"
proof -
  have c: "contains TwoParts 0" "contains TwoParts 3"
    by (simp_all add: contains_def TwoParts_def)
  have k: "\<not> (g_multigraph TwoParts \<and> g_directed TwoParts)" by (simp add: TwoParts_def)
  have n: "(0::nat) \<noteq> 3" by simp
  from no_path_error[OF c, where tuple_len = plain_node] obtain ys r where
    eq: "bidirectional_all_shortest_paths plain_node TwoParts 0 3 = Inr (ys, r)"
    and raised: "r = Some NoPath \<longrightarrow> ys = []
          \<and> (fst (fst (shortest_exit TwoParts 0 3)) = []
             \<or> snd (fst (shortest_exit TwoParts 0 3)) = [])"
    and iff: "(0::nat) \<noteq> 3 \<longrightarrow> \<not> (g_multigraph TwoParts \<and> g_directed TwoParts) \<longrightarrow>
          (r = Some NoPath \<longleftrightarrow> \<not> reachable TwoParts 0 3)"
    and hp: "bidirectional_has_path plain_node TwoParts 0 3 \<noteq> Inl NoPath"
    and sp: "\<forall>cutoff. \<exists>zs. bidirectional_all_simple_paths plain_node TwoParts 0 3 cutoff = Inr (zs, None)"
    by (elim exE conjE)
  from iff n k TwoParts_unreachable have r: "r = Some NoPath" by simp
  have run: "bidirectional_all_simple_paths plain_node TwoParts 0 3 None = Inr ([], None)"
    by code_simp
  from r raised eq hp c k n TwoParts_unreachable run show ?thesis by simp
qed

text \<open>
  C4 as stated fails in three ways: for equal endpoints a path exists and \<open>NoPath\<close> is
  raised; in the directed multigraph \<open>DM\<close> no path exists and \<open>NoPath\<close> is not raised; and
  \<open>NoPath\<close> is raised as soon as one tree is empty, in \<open>Lonely\<close> with the target tree still
  holding \<open>[1]\<close>.
\<close>

theorem no_path_error_counterexample:
  "contains K4 2 \<and> reachable K4 2 2
   \<and> bidirectional_all_shortest_paths plain_node K4 2 2 = Inr ([], Some NoPath)
   \<and> contains DM 0 \<and> contains DM 1 \<and> \<not> reachable DM 0 1
   \<and> bidirectional_all_shortest_paths plain_node DM 0 1 = Inr ([[0, 2, 1]], None)
   \<and> contains Lonely 0 \<and> contains Lonely 1
   \<and> bidirectional_all_shortest_paths plain_node Lonely 0 1 = Inr ([], Some NoPath)
   \<and> snd (fst (shortest_exit Lonely 0 1)) = [[1]]"
proof -
  have "contains K4 2" "contains DM 0" "contains DM 1" "contains Lonely 0" "contains Lonely 1"
    by (simp_all add: contains_def K4_def DM_def Lonely_def)
  then show ?thesis
    using K4_same_run DM_shortest_run Lonely_run Lonely_exit DM_unreachable reachable_refl[of K4 2]
    by blast
qed

section \<open>Correctness of the reachability loop\<close>

text \<open>
  \<open>hp_modus\<close> is the side a round expands. \<open>side_inv Q a N L\<close> is what holds of one side
  before every round, for the direction \<open>Q\<close> in which that side follows the edges: the
  anchor \<open>a\<close> is in the seen set \<open>N\<close>, the leaves \<open>L\<close> are seen, every seen node that is not
  a leaf has all its neighbours seen, and every seen node is reached from the anchor.
  \<open>hp_inv\<close>: both sides satisfy it, the target side for the reversed edges, and no node is
  seen by both sides.
\<close>

definition hp_modus :: "'a hp_state \<Rightarrow> bool" where
  "hp_modus st = (length (snd (fst st)) < length (fst (fst st)))"

definition side_inv :: "('a \<Rightarrow> 'a \<Rightarrow> bool) \<Rightarrow> 'a \<Rightarrow> 'a set \<Rightarrow> 'a set \<Rightarrow> bool" where
  "side_inv Q a N L \<longleftrightarrow>
     a \<in> N \<and> L \<subseteq> N \<and> (\<forall>u \<in> N - L. \<forall>v. Q u v \<longrightarrow> v \<in> N) \<and> (\<forall>v \<in> N. Q\<^sup>*\<^sup>* a v)"

definition hp_inv :: "('a \<Rightarrow> 'a \<Rightarrow> bool) \<Rightarrow> 'a \<Rightarrow> 'a \<Rightarrow> 'a hp_state \<Rightarrow> bool" where
  "hp_inv R s t st \<longleftrightarrow>
     side_inv R s (set (fst (snd st))) (set (fst (fst st)))
   \<and> side_inv R\<inverse>\<inverse> t (set (snd (snd st))) (set (snd (fst st)))
   \<and> set (fst (snd st)) \<inter> set (snd (snd st)) = {}"

lemma side_step:
  assumes "side_inv Q a N L" "side_inv Q\<inverse>\<inverse> a' N' L'" "N \<inter> N' = {}"
    "T = (\<Union>u \<in> L. {v. Q u v}) - N" "\<forall>u \<in> L. \<forall>v. Q u v \<longrightarrow> v \<in> L' \<longrightarrow> v \<in> N"
  shows "side_inv Q a (T \<union> N) T" and "(T \<union> N) \<inter> N' = {}"
proof -
  have a: "a \<in> N" and LN: "L \<subseteq> N" and cl: "\<And>u v. u \<in> N \<Longrightarrow> u \<notin> L \<Longrightarrow> Q u v \<Longrightarrow> v \<in> N"
    and re: "\<And>v. v \<in> N \<Longrightarrow> Q\<^sup>*\<^sup>* a v"
    using assms(1) by (auto simp: side_inv_def)
  have cl': "\<And>v u. v \<in> N' \<Longrightarrow> v \<notin> L' \<Longrightarrow> Q u v \<Longrightarrow> u \<in> N'"
    using assms(2) by (auto simp: side_inv_def)
  have T: "\<And>v. v \<in> T \<longleftrightarrow> (\<exists>u \<in> L. Q u v) \<and> v \<notin> N"
    unfolding assms(4) by auto
  have c1: "v \<in> T \<union> N" if "u \<in> T \<union> N - T" "Q u v" for u v
  proof -
    from that(1) have uN: "u \<in> N" by blast
    show ?thesis
    proof (cases "u \<in> L")
      case True
      with that(2) show ?thesis using T[of v] by auto
    next
      case False
      from cl[OF uN False that(2)] show ?thesis by simp
    qed
  qed
  have c2: "Q\<^sup>*\<^sup>* a v" if "v \<in> T \<union> N" for v
  proof (cases "v \<in> N")
    case True
    then show ?thesis by (rule re)
  next
    case False
    with that obtain u where u: "u \<in> L" "Q u v" using T[of v] by auto
    from u(1) LN have "Q\<^sup>*\<^sup>* a u" by (intro re) auto
    from this u(2) show ?thesis by (rule rtranclp.rtrancl_into_rtrancl)
  qed
  show "side_inv Q a (T \<union> N) T"
    unfolding side_inv_def using a c1 c2 by blast
  have "v \<notin> N'" if "v \<in> T" for v
  proof
    assume vN': "v \<in> N'"
    from that obtain u where u: "u \<in> L" "Q u v" and vN: "v \<notin> N" using T[of v] by auto
    from assms(5) u vN have "v \<notin> L'" by auto
    from cl'[OF vN' this u(2)] have "u \<in> N'" .
    with u(1) LN assms(3) show False by auto
  qed
  with assms(3) show "(T \<union> N) \<inter> N' = {}" by auto
qed

lemma side_meet:
  assumes "side_inv Q a N L" "side_inv Q\<inverse>\<inverse> a' N' L'" "u \<in> L" "Q u v" "v \<in> L'"
  shows "Q\<^sup>*\<^sup>* a a'"
proof -
  have "Q\<^sup>*\<^sup>* a u" using assms(1,3) by (auto simp: side_inv_def)
  moreover have "(Q\<inverse>\<inverse>)\<^sup>*\<^sup>* a' v" using assms(2,5) by (auto simp: side_inv_def)
  then have "Q\<^sup>*\<^sup>* v a'" by (simp add: rtranclp_conversep)
  ultimately show ?thesis using assms(4) by auto
qed

lemma side_exhausted:
  assumes "side_inv Q a N {}" "a' \<in> N'" "N \<inter> N' = {}"
  shows "\<not> Q\<^sup>*\<^sup>* a a'"
proof
  assume "Q\<^sup>*\<^sup>* a a'"
  then have "a' \<in> N"
  proof (induction rule: rtranclp_induct)
    case base
    show ?case using assms(1) by (simp add: side_inv_def)
  next
    case (step y z)
    with assms(1) show ?case by (auto simp: side_inv_def)
  qed
  with assms(2,3) show False by auto
qed

lemma has_path_round_None:
  "has_path_round nb st = None \<longleftrightarrow>
     (\<exists>u \<in> set (sel (hp_modus st) (fst st)). \<exists>v \<in> set (nb (hp_modus st) u).
         v \<notin> set (sel (hp_modus st) (snd st)) \<and> v \<in> set (sel (\<not> hp_modus st) (fst st)))"
proof -
  have "has_path_round nb st = None \<longleftrightarrow>
      has_path_scan (sel (hp_modus st) (snd st)) (sel (\<not> hp_modus st) (fst st))
        (concat (map (nb (hp_modus st)) (sel (hp_modus st) (fst st)))) [] = None"
    by (simp add: has_path_round_def Let_def hp_modus_def split: option.splits)
  then show ?thesis
    unfolding has_path_scan_None by auto
qed

lemma has_path_round_Some:
  assumes "has_path_round nb st = Some st'"
  shows "\<exists>temp. st' = (upd (hp_modus st) temp (fst st),
                       upd (hp_modus st) (List.union temp (sel (hp_modus st) (snd st))) (snd st))
     \<and> set temp = (\<Union>u \<in> set (sel (hp_modus st) (fst st)). set (nb (hp_modus st) u))
                    - set (sel (hp_modus st) (snd st))
     \<and> distinct temp"
proof -
  from assms obtain temp where
    scan: "has_path_scan (sel (hp_modus st) (snd st)) (sel (\<not> hp_modus st) (fst st))
        (concat (map (nb (hp_modus st)) (sel (hp_modus st) (fst st)))) [] = Some temp"
    and st': "st' = (upd (hp_modus st) temp (fst st),
                       upd (hp_modus st) (List.union temp (sel (hp_modus st) (snd st))) (snd st))"
    by (auto simp: has_path_round_def Let_def hp_modus_def split: option.splits)
  from has_path_scan_Some[OF scan] have
    "set temp = (\<Union>u \<in> set (sel (hp_modus st) (fst st)). set (nb (hp_modus st) u))
                    - set (sel (hp_modus st) (snd st))"
    by auto
  moreover from has_path_scan_distinct[OF scan] have "distinct temp" by simp
  ultimately show ?thesis using st' by (intro exI[of _ temp]) simp
qed


lemma set_nb_R:
  assumes "follows nb R"
  shows "(\<Union>u \<in> L. set (nb False u)) = (\<Union>u \<in> L. {v. R u v})"
    and "(\<Union>u \<in> L. set (nb True u)) = (\<Union>u \<in> L. {v. R\<inverse>\<inverse> u v})"
  using assms by (auto simp: follows_def)

lemma hp_inv_init: "s \<noteq> t \<Longrightarrow> hp_inv R s t (([s], [t]), ([s], [t]))"
  by (simp add: hp_inv_def side_inv_def)

lemma has_path_loop_correct:
  "follows (resolver G multi) R \<Longrightarrow> hp_inv R s t st \<Longrightarrow> has_path_loop G multi st = R\<^sup>*\<^sup>* s t"
proof (induction G multi st rule: has_path_loop.induct)
  case (1 G multi st)
  define nb where "nb = resolver G multi"
  note fol = "1.prems"(1)[folded nb_def]
  obtain l0 l1 n0 n1 where st: "st = ((l0, l1), (n0, n1))"
    by (metis surj_pair)
  have s0: "side_inv R s (set n0) (set l0)" and s1: "side_inv R\<inverse>\<inverse> t (set n1) (set l1)"
    and dj: "set n0 \<inter> set n1 = {}"
    using "1.prems"(2) by (simp_all add: hp_inv_def st)
  have s0': "side_inv (R\<inverse>\<inverse>)\<inverse>\<inverse> s (set n0) (set l0)" using s0 by simp
  have tn1: "t \<in> set n1" and sn0: "s \<in> set n0" using s0 s1 by (simp_all add: side_inv_def)
  show ?case
  proof (cases "l0 \<noteq> [] \<and> l1 \<noteq> []")
    case False
    have "\<not> R\<^sup>*\<^sup>* s t"
    proof (cases "l0 = []")
      case True
      with s0 have "side_inv R s (set n0) {}" by simp
      from side_exhausted[OF this tn1 dj] show ?thesis .
    next
      case l0: False
      with False have "l1 = []" by simp
      with s1 have "side_inv R\<inverse>\<inverse> t (set n1) {}" by simp
      from side_exhausted[OF this sn0] dj have "\<not> (R\<inverse>\<inverse>)\<^sup>*\<^sup>* t s" by auto
      then show ?thesis by (simp add: rtranclp_conversep)
    qed
    moreover have "has_path_loop G multi st = False"
      using False by (subst has_path_loop.simps) (auto simp: st)
    ultimately show ?thesis by simp
  next
    case True
    define m where "m = hp_modus st"
    have unf: "has_path_loop G multi st =
        (case has_path_round nb st of None \<Rightarrow> True | Some st' \<Rightarrow> has_path_loop G multi st')"
      using True by (subst has_path_loop.simps) (simp add: st nb_def)
    show ?thesis
    proof (cases "has_path_round nb st")
      case None
      then obtain u v where uv: "u \<in> set (sel m (l0, l1))" "v \<in> set (nb m u)"
        "v \<in> set (sel (\<not> m) (l0, l1))"
        unfolding has_path_round_None m_def[symmetric] by (auto simp: st)
      have "R\<^sup>*\<^sup>* s t"
      proof (cases m)
        case False
        with uv fol have "u \<in> set l0" "R u v" "v \<in> set l1"
          by (simp_all add: sel_def follows_def)
        from side_meet[OF s0 s1 this] show ?thesis .
      next
        case True
        with uv fol have "u \<in> set l1" "R\<inverse>\<inverse> u v" "v \<in> set l0"
          by (simp_all add: sel_def follows_def)
        from side_meet[OF s1 s0' this] have "(R\<inverse>\<inverse>)\<^sup>*\<^sup>* t s" .
        then show ?thesis by (simp add: rtranclp_conversep)
      qed
      with None unf show ?thesis by simp
    next
      case (Some st')
      from has_path_round_Some[OF Some] obtain temp where
        st': "st' = (upd m temp (l0, l1), upd m (List.union temp (sel m (n0, n1))) (n0, n1))"
        and temp: "set temp = (\<Union>u \<in> set (sel m (l0, l1)). set (nb m u)) - set (sel m (n0, n1))"
        unfolding m_def[symmetric] by (auto simp: st)
      have nomeet: "\<forall>u \<in> set (sel m (l0, l1)). \<forall>v \<in> set (nb m u).
           v \<in> set (sel (\<not> m) (l0, l1)) \<longrightarrow> v \<in> set (sel m (n0, n1))"
        using Some has_path_round_None[of nb st] unfolding m_def[symmetric] by (auto simp: st)
      have inv': "hp_inv R s t st'"
      proof (cases m)
        case False
        have T: "set temp = (\<Union>u \<in> set l0. {v. R u v}) - set n0"
          using temp False set_nb_R(1)[OF fol, of "set l0"] by (simp add: sel_def)
        have nm: "\<forall>u \<in> set l0. \<forall>v. R u v \<longrightarrow> v \<in> set l1 \<longrightarrow> v \<in> set n0"
          using nomeet False fol by (simp add: sel_def follows_def)
        note ss = side_step[OF s0 s1 dj T nm]
        have c: "fst (snd st') = List.union temp n0" "snd (snd st') = n1"
          "fst (fst st') = temp" "snd (fst st') = l1"
          using False by (simp_all add: st' upd_def sel_def)
        have A: "side_inv R s (set (List.union temp n0)) (set temp)"
          using ss(1) by (simp only: List.set_union)
        have B: "set (List.union temp n0) \<inter> set n1 = {}"
          using ss(2) by auto
        show ?thesis unfolding hp_inv_def c using A s1 B by (intro conjI)
      next
        case True
        have T: "set temp = (\<Union>u \<in> set l1. {v. R\<inverse>\<inverse> u v}) - set n1"
          using temp True set_nb_R(2)[OF fol, of "set l1"] by (simp add: sel_def)
        have nm: "\<forall>u \<in> set l1. \<forall>v. R\<inverse>\<inverse> u v \<longrightarrow> v \<in> set l0 \<longrightarrow> v \<in> set n1"
          using nomeet True fol by (simp add: sel_def follows_def)
        have dj': "set n1 \<inter> set n0 = {}" using dj by auto
        note ss = side_step[OF s1 s0' dj' T nm]
        have c: "fst (snd st') = n0" "snd (snd st') = List.union temp n1"
          "fst (fst st') = l0" "snd (fst st') = temp"
          using True by (simp_all add: st' upd_def sel_def)
        have A: "side_inv R\<inverse>\<inverse> t (set (List.union temp n1)) (set temp)"
          using ss(1) by (simp only: List.set_union)
        have B: "set n0 \<inter> set (List.union temp n1) = {}"
          using ss(2) by auto
        show ?thesis unfolding hp_inv_def c using s0 A B by (intro conjI)
      qed
      have "has_path_loop G multi st' = R\<^sup>*\<^sup>* s t"
        using "1.IH"[OF _ _ "1.prems"(1) inv'] True Some by (simp add: st nb_def)
      with Some unf show ?thesis by simp
    qed
  qed
qed

lemma has_path_eq:
  assumes "contains G source" "contains G target"
  shows "bidirectional_has_path tuple_len G source target =
     Inr (has_path_loop G (g_multigraph G) (([source], [target]), ([source], [target])))"
  using assms
  by (simp add: bidirectional_has_path_def priv_bidirectional_has_path_def
      priv_bidirectional_has_path_multi_def)

lemma Lonely_has_path_run: "bidirectional_has_path plain_node Lonely 0 0 = Inr False"
  by code_simp

lemma DM_has_path_run: "bidirectional_has_path plain_node DM 0 1 = Inr True"
  by code_simp

lemma K4_has_path_run: "bidirectional_has_path plain_node K4 0 3 = Inr True"
  by code_simp

lemma TwoParts_has_path_run: "bidirectional_has_path plain_node TwoParts 0 3 = Inr False"
  by code_simp

section \<open>Reachability\<close>

text \<open>
  C1 (amended). For every graph that is not a directed multigraph and every pair of distinct
  nodes \<open>source\<close> and \<open>target\<close> of it, \<^verbatim>\<open>bidirectional_has_path\<close> returns a boolean, and
  it is \<open>True\<close> if and only if a path of any length from \<open>source\<close> to \<open>target\<close> exists.
\<close>

theorem has_path_correct:
  assumes "contains G source" "contains G target" "source \<noteq> target"
    and "\<not> (g_multigraph G \<and> g_directed G)"
  shows "bidirectional_has_path tuple_len G source target = Inr (reachable G source target)"
proof -
  have "has_path_loop G (g_multigraph G) (([source], [target]), ([source], [target]))
      = (arc G)\<^sup>*\<^sup>* source target"
    by (rule has_path_loop_correct[OF resolver_follows[OF assms(4)] hp_inv_init[OF assms(3)]])
  then show ?thesis
    by (simp add: has_path_eq[OF assms(1,2)] reachable_def)
qed

theorem has_path_correct_witness:
  "contains TwoParts 0 \<and> contains TwoParts 3 \<and> (0::nat) \<noteq> 3
   \<and> \<not> (g_multigraph TwoParts \<and> g_directed TwoParts)
   \<and> bidirectional_has_path plain_node TwoParts 0 3 = Inr (reachable TwoParts 0 3)
   \<and> bidirectional_has_path plain_node TwoParts 0 3 = Inr False"
proof -
  have c: "contains TwoParts 0" "contains TwoParts 3"
    by (simp_all add: contains_def TwoParts_def)
  have k: "\<not> (g_multigraph TwoParts \<and> g_directed TwoParts)" by (simp add: TwoParts_def)
  have n: "(0::nat) \<noteq> 3" by simp
  from has_path_correct[OF c n k, where tuple_len = plain_node] c n k TwoParts_has_path_run show ?thesis by simp
qed

text \<open>
  C1 as stated fails in two ways: node 0 of \<open>Lonely\<close> has no edge, the path of length zero
  from it to itself exists, and the answer is \<open>False\<close>; in the directed multigraph \<open>DM\<close>
  the target side follows out-edges, and the answer for the nodes 0 and 1 is \<open>True\<close>
  although no path leads from 0 to 1.
\<close>

theorem has_path_correct_counterexample:
  "contains Lonely 0 \<and> reachable Lonely 0 0 \<and> bidirectional_has_path plain_node Lonely 0 0 = Inr False
   \<and> contains DM 0 \<and> contains DM 1 \<and> \<not> reachable DM 0 1
   \<and> bidirectional_has_path plain_node DM 0 1 = Inr True"
proof -
  have "contains Lonely 0" "contains DM 0" "contains DM 1"
    by (simp_all add: contains_def Lonely_def DM_def)
  then show ?thesis
    using Lonely_has_path_run DM_has_path_run DM_unreachable reachable_refl[of Lonely 0]
    by blast
qed

section \<open>The two variants of each engine\<close>

text \<open>
  On an undirected graph in which no node lists a neighbour twice, \<^verbatim>\<open>G[node]\<close> and
  \<^verbatim>\<open>[v for u, v in G.edges(node)]\<close> are the same list, so the two resolvers coincide. The
  reachability loop depends on its variant only through the resolver. The two variants of
  the all-shortest-paths loop keep their trees differently (a set of paths against a list),
  and both are correct for the same edge relation.
\<close>

lemma resolver_collapsed:
  assumes "\<not> g_directed G" "no_parallel_edges G"
  shows "resolver G True = resolver G False"
proof (intro ext)
  fix modus n
  have "distinct (map snd (edges_of G n))"
    using assms(2) by (simp add: no_parallel_edges_def)
  then have "adj G n = map snd (edges_of G n)"
    unfolding adj_def by (rule distinct_remdups_id)
  then show "resolver G True modus n = resolver G False modus n"
    using assms(1) by (simp add: resolver_def neighbors_multi_map neighbors_def)
qed

lemma has_path_loop_cong:
  "resolver G multi = resolver G (\<not> multi) \<Longrightarrow>
     has_path_loop G multi st = has_path_loop G (\<not> multi) st"
proof (induction G multi st rule: has_path_loop.induct)
  case (1 G multi st)
  note unf = has_path_loop.simps[of G multi st] has_path_loop.simps[of G "\<not> multi" st]
  show ?case
  proof (cases "fst (fst st) \<noteq> [] \<and> snd (fst st) \<noteq> []")
    case False
    then have "\<not> (fst (fst st) \<noteq> [] \<and> snd (fst st) \<noteq> [])" .
    then show ?thesis unfolding unf by (simp only: if_False)
  next
    case True
    show ?thesis
    proof (cases "has_path_round (resolver G multi) st")
      case None
      with True "1.prems" show ?thesis unfolding unf by simp
    next
      case (Some st')
      from "1.IH"[OF True Some "1.prems"] True Some "1.prems" show ?thesis
        unfolding unf by simp
    qed
  qed
qed

lemma shortest_loop_result:
  assumes "source \<noteq> target" "\<not> (multi \<and> g_directed G)"
  shows "sh_result (arc G) source target
     (shortest_loop G multi
        (([[source]], [[target]]), (if multi then ([], []) else ([source], [target])), False))"
proof (rule shortest_loop_correct[OF resolver_follows[OF assms(2)] sh_inv_init])
  show "\<not> snd (snd (([[source]], [[target]]),
             (if multi then ([], []) else ([source], [target])), False))"
    by simp
  show "\<forall>n \<le> 0 + 0 + 1. spaths (arc G) source target n = {}"
    using spaths_short[OF assms(1)] by simp
qed

lemma sh_result_unique:
  assumes "sh_result R s t g" "sh_result R s t g'"
  shows "set (fst g) = set (fst g') \<and> snd (snd (snd g)) = snd (snd (snd g'))"
proof (cases "\<forall>n. spaths R s t n = {}")
  case True
  with assms show ?thesis by (auto simp: sh_result_def)
next
  case False
  with assms obtain k k' where
    k: "fst g \<noteq> []" "set (fst g) = spaths R s t k" "\<forall>n<k. spaths R s t n = {}" "snd (snd (snd g))"
    and k': "fst g' \<noteq> []" "set (fst g') = spaths R s t k'" "\<forall>n<k'. spaths R s t n = {}"
      "snd (snd (snd g'))"
    unfolding sh_result_def by blast
  from k(1,2) have ne: "spaths R s t k \<noteq> {}" by (metis set_empty)
  from k'(1,2) have ne': "spaths R s t k' \<noteq> {}" by (metis set_empty)
  from ne k'(3) have "\<not> k < k'" by blast
  moreover from ne' k(3) have "\<not> k' < k" by blast
  ultimately have "k = k'" by simp
  with k k' show ?thesis by simp
qed

lemma shortest_loop_init_distinct:
  assumes "nb_distinct (resolver G multi)"
  shows "distinct (fst (shortest_loop G multi
     (([[source]], [[target]]), (if multi then ([], []) else ([source], [target])), False)))"
  by (rule shortest_loop_distinct[OF assms sh_inv_init]) simp_all

lemma shortest_loop_init_same:
  "fst (shortest_loop G multi
     (([[s]], [[s]]), (if multi then ([], []) else ([s], [s])), False)) = []
   \<and> \<not> snd (snd (snd (shortest_loop G multi
     (([[s]], [[s]]), (if multi then ([], []) else ([s], [s])), False))))"
  by (rule shortest_loop_same_anchor[OF sh_inv_init]) simp

lemma Cyc_collapsed: "no_parallel_edges Cyc"
  by (auto simp: no_parallel_edges_def edges_of_def Cyc_def)

lemma DM_collapsed: "no_parallel_edges DM"
  by (auto simp: no_parallel_edges_def edges_of_def DM_def)

lemma DM_variants_run:
  "priv_bidirectional_has_path_multi DM 0 1 = True"
  "priv_bidirectional_has_path DM 0 1 = False"
  "priv_bidirectional_all_simple_paths_multi DM 0 1 3 = ([[0, 2, 1]], None)"
  "priv_bidirectional_all_simple_paths DM 0 1 3 = ([], None)"
  "priv_bidirectional_all_shortest_paths_multi DM 0 1 = ([[0, 2, 1]], None)"
  "priv_bidirectional_all_shortest_paths DM 0 1 = ([], Some NoPath)"
  by code_simp+

lemma Cyc_variants_run:
  "priv_bidirectional_has_path Cyc 0 2 = True"
  "priv_bidirectional_all_simple_paths Cyc 0 2 3 = ([[0, 1, 2], [0, 3, 2]], None)"
  "priv_bidirectional_all_shortest_paths Cyc 0 2 = ([[0, 1, 2], [0, 3, 2]], None)"
  by code_simp+

text \<open>
  C6 (amended). On an undirected graph without parallel edges, the multigraph variant and
  the simple-graph variant of each of the three engines produce the same result: the same
  boolean for reachability, the same sequence of paths for all simple paths with any
  cutoff, and for all shortest paths the same paths, each yielded once by either variant,
  and the same end of the sequence (normal or \<open>NoPath\<close>). The all-shortest-paths variants
  are compared up to the order of the yields, because the simple-graph variant iterates
  over sets of paths.
\<close>

theorem variants_agree:
  assumes "\<not> g_directed G" "no_parallel_edges G"
  shows "priv_bidirectional_has_path_multi G source target
           = priv_bidirectional_has_path G source target
     \<and> priv_bidirectional_all_simple_paths_multi G source target cutoff
           = priv_bidirectional_all_simple_paths G source target cutoff
     \<and> set (fst (priv_bidirectional_all_shortest_paths_multi G source target))
           = set (fst (priv_bidirectional_all_shortest_paths G source target))
     \<and> distinct (fst (priv_bidirectional_all_shortest_paths_multi G source target))
     \<and> distinct (fst (priv_bidirectional_all_shortest_paths G source target))
     \<and> snd (priv_bidirectional_all_shortest_paths_multi G source target)
           = snd (priv_bidirectional_all_shortest_paths G source target)"
proof -
  note eq = resolver_collapsed[OF assms]
  define gm where "gm = shortest_loop G True (([[source]], [[target]]), ([], []), False)"
  define gs where
    "gs = shortest_loop G False (([[source]], [[target]]), ([source], [target]), False)"
  have 1: "priv_bidirectional_has_path_multi G source target
           = priv_bidirectional_has_path G source target"
    unfolding priv_bidirectional_has_path_multi_def priv_bidirectional_has_path_def
    using has_path_loop_cong[of G True] eq by simp
  have "neighbors_multi G = neighbors G"
    using eq by (simp add: resolver_def)
  then have 2: "priv_bidirectional_all_simple_paths_multi G source target cutoff
           = priv_bidirectional_all_simple_paths G source target cutoff"
    by (simp add: priv_bidirectional_all_simple_paths_multi_def
        priv_bidirectional_all_simple_paths_def)
  have dm: "distinct (fst gm)"
    unfolding gm_def
    using shortest_loop_init_distinct[OF resolver_distinct, of True G source target] assms(2)
    by simp
  have ds: "distinct (fst gs)"
    unfolding gs_def
    using shortest_loop_init_distinct[OF resolver_distinct, of False G source target]
    by simp
  have same: "set (fst gm) = set (fst gs) \<and> snd (snd (snd gm)) = snd (snd (snd gs))"
  proof (cases "source = target")
    case True
    with shortest_loop_init_same[of G True target] shortest_loop_init_same[of G False target]
    show ?thesis by (simp add: gm_def gs_def)
  next
    case False
    have "sh_result (arc G) source target gm"
      unfolding gm_def using shortest_loop_result[OF False, of True G] assms(1) by simp
    moreover have "sh_result (arc G) source target gs"
      unfolding gs_def using shortest_loop_result[OF False, of False G] by simp
    ultimately show ?thesis by (rule sh_result_unique)
  qed
  have m: "priv_bidirectional_all_shortest_paths_multi G source target
      = (fst gm, if \<not> snd (snd (snd gm)) then Some NoPath else None)"
    by (simp add: priv_bidirectional_all_shortest_paths_multi_def shortest_finish_def gm_def)
  have s: "priv_bidirectional_all_shortest_paths G source target
      = (fst gs, if \<not> snd (snd (snd gs)) then Some NoPath else None)"
    by (simp add: priv_bidirectional_all_shortest_paths_def shortest_finish_def gs_def)
  from 1 2 dm ds same show ?thesis
    unfolding m s by simp
qed

theorem variants_agree_witness:
  "\<not> g_directed Cyc \<and> no_parallel_edges Cyc
   \<and> priv_bidirectional_has_path_multi Cyc 0 2 = True
   \<and> priv_bidirectional_all_simple_paths_multi Cyc 0 2 3 = ([[0, 1, 2], [0, 3, 2]], None)
   \<and> set (fst (priv_bidirectional_all_shortest_paths_multi Cyc 0 2)) = {[0, 1, 2], [0, 3, 2]}
   \<and> distinct (fst (priv_bidirectional_all_shortest_paths_multi Cyc 0 2))
   \<and> snd (priv_bidirectional_all_shortest_paths_multi Cyc 0 2) = None"
proof -
  have u: "\<not> g_directed Cyc" by (simp add: Cyc_def)
  from variants_agree[OF u Cyc_collapsed, of 0 2 3] u Cyc_collapsed show ?thesis
    unfolding Cyc_variants_run by simp
qed

text \<open>
  C6 as stated fails for directed graphs: the directed graph \<open>DM\<close> has no parallel edges,
  and for the nodes 0 and 1 the multigraph variants, which follow out-edges on the target
  side too, answer \<open>True\<close> and yield \<open>[0, 2, 1]\<close>, while the simple-graph variants answer
  \<open>False\<close>, yield nothing and raise \<open>NoPath\<close>.
\<close>

theorem variants_agree_counterexample:
  "g_directed DM \<and> no_parallel_edges DM
   \<and> priv_bidirectional_has_path_multi DM 0 1 = True
   \<and> priv_bidirectional_has_path DM 0 1 = False
   \<and> priv_bidirectional_all_simple_paths_multi DM 0 1 3 = ([[0, 2, 1]], None)
   \<and> priv_bidirectional_all_simple_paths DM 0 1 3 = ([], None)
   \<and> priv_bidirectional_all_shortest_paths_multi DM 0 1 = ([[0, 2, 1]], None)
   \<and> priv_bidirectional_all_shortest_paths DM 0 1 = ([], Some NoPath)"
proof -
  have "g_directed DM" by (simp add: DM_def)
  then show ?thesis
    using DM_collapsed DM_variants_run by blast
qed

section \<open>The seen sets\<close>

text \<open>
  \<open>has_path_after G multi k st\<close> is the state in which the \<^verbatim>\<open>while\<close> loop of the
  reachability engine is after \<open>k\<close> further iterations from the state \<open>st\<close>, and \<open>None\<close>
  when the loop has ended or returned before; \<open>shortest_after\<close> is the same for the
  all-shortest-paths engine. \<open>Tri\<close> is a triangle on the nodes 0, 1, 2 next to a star
  around node 3. \<open>hp_seen_ok\<close>: every leaf of a side is in that side's \<^verbatim>\<open>nodes\<close> set.
\<close>

fun has_path_after :: "'a graph \<Rightarrow> bool \<Rightarrow> nat \<Rightarrow> 'a hp_state \<Rightarrow> 'a hp_state option" where
  "has_path_after G multi 0 st = Some st"
| "has_path_after G multi (Suc k) st =
     (if fst (fst st) \<noteq> [] \<and> snd (fst st) \<noteq> [] then
        (case has_path_round (resolver G multi) st of
           None \<Rightarrow> None
         | Some st' \<Rightarrow> has_path_after G multi k st')
      else None)"

fun shortest_after :: "'a graph \<Rightarrow> bool \<Rightarrow> nat \<Rightarrow> 'a sh_state \<Rightarrow> 'a sh_state option" where
  "shortest_after G multi 0 st = Some st"
| "shortest_after G multi (Suc k) st =
     (if \<not> snd (snd st) \<and> fst (fst st) \<noteq> [] \<and> snd (fst st) \<noteq> [] then
        shortest_after G multi k (snd (shortest_round (resolver G multi) multi st))
      else None)"

definition Tri :: "nat graph" where
  "Tri = \<lparr>g_nodes = [0, 1, 2, 3, 4, 5, 6],
          g_edges = [(0, 1), (0, 2), (1, 2), (3, 4), (3, 5), (3, 6)],
          g_directed = False, g_multigraph = False\<rparr>"

lemma sel_upd: "sel m (upd m x p) = x" "sel (\<not> m) (upd m x p) = sel (\<not> m) p"
  by (simp_all add: sel_def upd_def)

lemma has_path_after_loop:
  "has_path_after G multi k st = Some st' \<Longrightarrow>
     has_path_loop G multi st = has_path_loop G multi st'"
proof (induction k arbitrary: st)
  case 0
  then show ?case by simp
next
  case (Suc k)
  from Suc.prems obtain st1 where
    c: "fst (fst st) \<noteq> [] \<and> snd (fst st) \<noteq> []"
    and r: "has_path_round (resolver G multi) st = Some st1"
    and a: "has_path_after G multi k st1 = Some st'"
    by (auto split: if_splits option.splits)
  have "has_path_loop G multi st = has_path_loop G multi st1"
    using c r by (subst has_path_loop.simps) simp
  with Suc.IH[OF a] show ?case by simp
qed

lemma shortest_after_loop:
  "shortest_after G multi k st = Some st' \<Longrightarrow>
     snd (shortest_loop G multi st) = snd (shortest_loop G multi st')"
proof (induction k arbitrary: st)
  case 0
  then show ?case by simp
next
  case (Suc k)
  from Suc.prems have
    c: "\<not> snd (snd st)" "fst (fst st) \<noteq> []" "snd (fst st) \<noteq> []"
    and a: "shortest_after G multi k (snd (shortest_round (resolver G multi) multi st)) = Some st'"
    by (auto split: if_splits)
  from Suc.IH[OF a] show ?case by (simp add: shortest_loop_go[OF c])
qed

lemma has_path_round_seen:
  assumes "has_path_round nb st = Some st'"
  shows "set (sel (hp_modus st) (fst st')) \<inter> set (sel (hp_modus st) (snd st)) = {}"
    and "set (sel (hp_modus st) (snd st')) =
           set (sel (hp_modus st) (snd st)) \<union> set (sel (hp_modus st) (fst st'))"
    and "sel (\<not> hp_modus st) (fst st') = sel (\<not> hp_modus st) (fst st)"
    and "sel (\<not> hp_modus st) (snd st') = sel (\<not> hp_modus st) (snd st)"
proof -
  from has_path_round_Some[OF assms] obtain temp where
    st': "st' = (upd (hp_modus st) temp (fst st),
                 upd (hp_modus st) (List.union temp (sel (hp_modus st) (snd st))) (snd st))"
    and temp: "set temp = (\<Union>u \<in> set (sel (hp_modus st) (fst st)). set (nb (hp_modus st) u))
                    - set (sel (hp_modus st) (snd st))"
    by (elim exE conjE)
  show "set (sel (hp_modus st) (fst st')) \<inter> set (sel (hp_modus st) (snd st)) = {}"
    unfolding st' fst_conv sel_upd temp by blast
  show "set (sel (hp_modus st) (snd st')) =
           set (sel (hp_modus st) (snd st)) \<union> set (sel (hp_modus st) (fst st'))"
    unfolding st' fst_conv snd_conv sel_upd List.set_union by blast
  show "sel (\<not> hp_modus st) (fst st') = sel (\<not> hp_modus st) (fst st)"
    unfolding st' fst_conv sel_upd ..
  show "sel (\<not> hp_modus st) (snd st') = sel (\<not> hp_modus st) (snd st)"
    unfolding st' snd_conv sel_upd ..
qed

definition hp_seen_ok :: "'a hp_state \<Rightarrow> bool" where
  "hp_seen_ok st \<longleftrightarrow> (\<forall>side. set (sel side (fst st)) \<subseteq> set (sel side (snd st)))"

lemma has_path_round_mono:
  assumes "has_path_round nb st = Some st'"
  shows "set (sel side (snd st)) \<subseteq> set (sel side (snd st'))"
proof (cases "side = hp_modus st")
  case True
  then show ?thesis using has_path_round_seen(2)[OF assms] by simp
next
  case False
  then have "side = (\<not> hp_modus st)" by simp
  then show ?thesis using has_path_round_seen(4)[OF assms] by simp
qed

lemma has_path_round_seen_ok:
  assumes "has_path_round nb st = Some st'" "hp_seen_ok st"
  shows "hp_seen_ok st'"
  unfolding hp_seen_ok_def
proof
  fix side
  show "set (sel side (fst st')) \<subseteq> set (sel side (snd st'))"
  proof (cases "side = hp_modus st")
    case True
    then show ?thesis using has_path_round_seen(2)[OF assms(1)] by simp
  next
    case False
    then have "side = (\<not> hp_modus st)" by simp
    then show ?thesis
      using has_path_round_seen(3,4)[OF assms(1)] assms(2) by (simp add: hp_seen_ok_def)
  qed
qed

lemma has_path_after_seen:
  "has_path_after G multi k st = Some st' \<Longrightarrow>
     set (sel side (snd st)) \<subseteq> set (sel side (snd st')) \<and> (hp_seen_ok st \<longrightarrow> hp_seen_ok st')"
proof (induction k arbitrary: st)
  case 0
  then show ?case by simp
next
  case (Suc k)
  from Suc.prems obtain st1 where
    r: "has_path_round (resolver G multi) st = Some st1"
    and a: "has_path_after G multi k st1 = Some st'"
    by (auto split: if_splits option.splits)
  from Suc.IH[OF a] has_path_round_mono[OF r, of side] has_path_round_seen_ok[OF r]
  show ?case by blast
qed

lemma shortest_round_nodes_mono:
  "set (sel side (fst (snd st)))
     \<subseteq> set (sel side (fst (snd (snd (shortest_round nb False st)))))"
proof -
  obtain tree nodes found where st: "st = (tree, nodes, found)"
    by (cases st) auto
  show ?thesis
    by (cases side; cases "length (snd tree) < length (fst tree)")
       (auto simp: st shortest_round_simple Let_def sel_def upd_def)
qed

lemma shortest_after_seen:
  "shortest_after G False k st = Some st' \<Longrightarrow>
     set (sel side (fst (snd st))) \<subseteq> set (sel side (fst (snd st')))
     \<and> (nodes_ok False st \<longrightarrow> nodes_ok False st')"
proof (induction k arbitrary: st)
  case 0
  then show ?case by simp
next
  case (Suc k)
  from Suc.prems have
    a: "shortest_after G False k (snd (shortest_round (resolver G False) False st)) = Some st'"
    by (auto split: if_splits)
  from Suc.IH[OF a] shortest_round_nodes_mono[of side st "resolver G False"]
    shortest_round_nodes_ok[of False st "resolver G False"]
  show ?case by blast
qed

lemma nodes_ok_sel:
  "nodes_ok False st \<Longrightarrow> last ` set (sel side (fst st)) \<subseteq> set (sel side (fst (snd st)))"
  by (cases side) (simp_all add: nodes_ok_def sel_def)

lemma Tri_has_path_states:
  "has_path_after Tri False 1 (([0], [3]), ([0], [3])) = Some (([2, 1], [3]), [1, 2, 0], [3])"
  "has_path_after Tri False 1 (([2, 1], [3]), [1, 2, 0], [3])
     = Some (([2, 1], [6, 5, 4]), [1, 2, 0], [4, 5, 6, 3])"
  "has_path_after Tri False 1 (([2, 1], [6, 5, 4]), [1, 2, 0], [4, 5, 6, 3])
     = Some (([], [6, 5, 4]), [1, 2, 0], [4, 5, 6, 3])"
  by code_simp+

lemma Tri_shortest_states:
  "shortest_after Tri False 1 (([[0]], [[3]]), ([0], [3]), False)
     = Some (([[0, 2], [0, 1]], [[3]]), ([2, 1, 0], [3]), False)"
  "shortest_after Tri False 1 (([[0, 2], [0, 1]], [[3]]), ([2, 1, 0], [3]), False)
     = Some (([[0, 2], [0, 1]], [[3, 6], [3, 5], [3, 4]]), ([2, 1, 0], [6, 5, 4, 3]), False)"
  "shortest_after Tri False 1
       (([[0, 2], [0, 1]], [[3, 6], [3, 5], [3, 4]]), ([2, 1, 0], [6, 5, 4, 3]), False)
     = Some (([[0, 1, 2], [0, 2, 1]], [[3, 6], [3, 5], [3, 4]]), ([2, 1, 0], [6, 5, 4, 3]), False)"
  by code_simp+

lemma shortest_round_admits:
  "set (sel (round_modus st) (fst (snd (shortest_round nb multi st)))) =
     {p @ [s] | p s. p \<in> set (sel (round_modus st) (fst st))
                   \<and> s \<in> set (nb (round_modus st) (last p)) \<and> s \<notin> set p}"
  unfolding set_round_tree(1) round_ext_def
  by (auto simp: extensions_iff shortest_work_iff)

lemma shortest_round_seen:
  "set (sel (round_modus st) (fst (snd (snd (shortest_round nb False st))))) =
     set (sel (round_modus st) (fst (snd st)))
     \<union> last ` set (sel (round_modus st) (fst (snd (shortest_round nb False st))))"
  "sel (\<not> round_modus st) (fst (snd (snd (shortest_round nb False st))))
     = sel (\<not> round_modus st) (fst (snd st))"
proof -
  obtain tree nodes found where st: "st = (tree, nodes, found)"
    by (cases st) auto
  show "set (sel (round_modus st) (fst (snd (snd (shortest_round nb False st))))) =
     set (sel (round_modus st) (fst (snd st)))
     \<union> last ` set (sel (round_modus st) (fst (snd (shortest_round nb False st))))"
    by (cases "length (snd tree) < length (fst tree)")
       (auto simp: st shortest_round_simple Let_def round_modus_def sel_def upd_def admitted_eq)
  show "sel (\<not> round_modus st) (fst (snd (snd (shortest_round nb False st))))
     = sel (\<not> round_modus st) (fst (snd st))"
    by (cases "length (snd tree) < length (fst tree)")
       (simp_all add: st shortest_round_simple Let_def round_modus_def sel_def upd_def)
qed

lemma shortest_after_one:
  "shortest_after G multi 1 st = Some st' \<Longrightarrow>
     st' = snd (shortest_round (resolver G multi) multi st)"
  by (auto split: if_splits)

text \<open>
  C8 (amended). In the reachability engine, of either variant, each side's seen set
  accumulates every node ever admitted to that side's frontier and prevents re-expansion:
  every leaf of a side is in that side's seen set, the seen sets only grow, a round adds
  exactly its new leaves to the seen set of the side it expands and leaves the other side
  as it is, and no node seen on that side in the same or an earlier round is among the new
  leaves. In the simple-graph all-shortest-paths engine each side's seen set accumulates
  the last node of every path ever admitted to that side's tree: the last node of every
  path of a side is in that side's seen set, the seen sets only grow, and a round adds
  exactly the last nodes of its new paths to the seen set of the side it expands and leaves
  the other side as it is. That seen set does not prevent re-admission: the new tree of the
  expanded side consists of every path of the old tree extended by every neighbour of its
  last node that is not on the path itself, seen or not.
\<close>

theorem seen_sets:
  "(has_path_after G multi i (([source], [target]), ([source], [target])) = Some st1 \<longrightarrow>
      (\<forall>side. set (sel side (fst st1)) \<subseteq> set (sel side (snd st1)))
    \<and> (has_path_after G multi j st1 = Some st2 \<longrightarrow>
          (\<forall>side. set (sel side (snd st1)) \<subseteq> set (sel side (snd st2)))
        \<and> (has_path_after G multi 1 st2 = Some st3 \<longrightarrow>
              set (sel (hp_modus st2) (fst st3)) \<inter> set (sel (hp_modus st2) (snd st1)) = {}
            \<and> set (sel (hp_modus st2) (fst st3)) \<inter> set (sel (hp_modus st2) (snd st2)) = {}
            \<and> set (sel (hp_modus st2) (snd st3))
                = set (sel (hp_modus st2) (snd st2)) \<union> set (sel (hp_modus st2) (fst st3))
            \<and> sel (\<not> hp_modus st2) (fst st3) = sel (\<not> hp_modus st2) (fst st2)
            \<and> sel (\<not> hp_modus st2) (snd st3) = sel (\<not> hp_modus st2) (snd st2))))
   \<and> (shortest_after G False i' (([[source]], [[target]]), ([source], [target]), False)
         = Some sh1 \<longrightarrow>
      (\<forall>side. last ` set (sel side (fst sh1)) \<subseteq> set (sel side (fst (snd sh1))))
    \<and> (shortest_after G False j' sh1 = Some sh2 \<longrightarrow>
          (\<forall>side. set (sel side (fst (snd sh1))) \<subseteq> set (sel side (fst (snd sh2))))
        \<and> (shortest_after G False 1 sh2 = Some sh3 \<longrightarrow>
              set (sel (round_modus sh2) (fst sh3))
                = {p @ [s] | p s. p \<in> set (sel (round_modus sh2) (fst sh2))
                     \<and> s \<in> set (neighbors G (round_modus sh2) (last p)) \<and> s \<notin> set p}
            \<and> set (sel (round_modus sh2) (fst (snd sh3)))
                = set (sel (round_modus sh2) (fst (snd sh2)))
                  \<union> last ` set (sel (round_modus sh2) (fst sh3))
            \<and> sel (\<not> round_modus sh2) (fst sh3) = sel (\<not> round_modus sh2) (fst sh2)
            \<and> sel (\<not> round_modus sh2) (fst (snd sh3))
                = sel (\<not> round_modus sh2) (fst (snd sh2)))))"
proof (intro conjI impI)
  assume h1: "has_path_after G multi i (([source], [target]), ([source], [target])) = Some st1"
  have "hp_seen_ok (([source], [target]), ([source], [target]))"
    by (simp add: hp_seen_ok_def sel_def)
  with has_path_after_seen[OF h1] have ok1: "hp_seen_ok st1" by blast
  then show "\<forall>side. set (sel side (fst st1)) \<subseteq> set (sel side (snd st1))"
    by (simp add: hp_seen_ok_def)
  assume h2: "has_path_after G multi j st1 = Some st2"
  have mono: "set (sel side (snd st1)) \<subseteq> set (sel side (snd st2))" for side
    using has_path_after_seen[OF h2, of side] by blast
  then show "\<forall>side. set (sel side (snd st1)) \<subseteq> set (sel side (snd st2))" ..
  assume h3: "has_path_after G multi 1 st2 = Some st3"
  then have r: "has_path_round (resolver G multi) st2 = Some st3"
    by (auto split: if_splits option.splits)
  note s = has_path_round_seen[OF r]
  show "set (sel (hp_modus st2) (fst st3)) \<inter> set (sel (hp_modus st2) (snd st2)) = {}"
    by (rule s(1))
  then show "set (sel (hp_modus st2) (fst st3)) \<inter> set (sel (hp_modus st2) (snd st1)) = {}"
    using mono[of "hp_modus st2"] by blast
  show "set (sel (hp_modus st2) (snd st3))
      = set (sel (hp_modus st2) (snd st2)) \<union> set (sel (hp_modus st2) (fst st3))"
    by (rule s(2))
  show "sel (\<not> hp_modus st2) (fst st3) = sel (\<not> hp_modus st2) (fst st2)"
    by (rule s(3))
  show "sel (\<not> hp_modus st2) (snd st3) = sel (\<not> hp_modus st2) (snd st2)"
    by (rule s(4))
next
  assume h1: "shortest_after G False i' (([[source]], [[target]]), ([source], [target]), False)
         = Some sh1"
  have "nodes_ok False (([[source]], [[target]]), ([source], [target]), False)"
    by (simp add: nodes_ok_def)
  with shortest_after_seen[OF h1] have "nodes_ok False sh1" by blast
  then have "last ` set (sel side (fst sh1)) \<subseteq> set (sel side (fst (snd sh1)))" for side
    by (rule nodes_ok_sel)
  then show "\<forall>side. last ` set (sel side (fst sh1)) \<subseteq> set (sel side (fst (snd sh1)))" ..
  assume h2: "shortest_after G False j' sh1 = Some sh2"
  have "set (sel side (fst (snd sh1))) \<subseteq> set (sel side (fst (snd sh2)))" for side
    using shortest_after_seen[OF h2, of side] by blast
  then show "\<forall>side. set (sel side (fst (snd sh1))) \<subseteq> set (sel side (fst (snd sh2)))" ..
  assume h3: "shortest_after G False 1 sh2 = Some sh3"
  note r = shortest_after_one[OF h3]
  have nb: "resolver G False = neighbors G" by (simp add: resolver_def)
  show "set (sel (round_modus sh2) (fst sh3))
      = {p @ [s] | p s. p \<in> set (sel (round_modus sh2) (fst sh2))
           \<and> s \<in> set (neighbors G (round_modus sh2) (last p)) \<and> s \<notin> set p}"
    unfolding r nb by (rule shortest_round_admits)
  show "set (sel (round_modus sh2) (fst (snd sh3)))
      = set (sel (round_modus sh2) (fst (snd sh2)))
        \<union> last ` set (sel (round_modus sh2) (fst sh3))"
    unfolding r by (rule shortest_round_seen(1))
  show "sel (\<not> round_modus sh2) (fst sh3) = sel (\<not> round_modus sh2) (fst sh2)"
    unfolding r by (rule set_round_tree(2))
  show "sel (\<not> round_modus sh2) (fst (snd sh3)) = sel (\<not> round_modus sh2) (fst (snd sh2))"
    unfolding r by (rule shortest_round_seen(2))
qed

theorem seen_sets_witness:
  "has_path_after Tri False 1 (([0], [3]), ([0], [3])) = Some (([2, 1], [3]), [1, 2, 0], [3])
   \<and> has_path_after Tri False 1 (([2, 1], [3]), [1, 2, 0], [3])
       = Some (([2, 1], [6, 5, 4]), [1, 2, 0], [4, 5, 6, 3])
   \<and> has_path_after Tri False 1 (([2, 1], [6, 5, 4]), [1, 2, 0], [4, 5, 6, 3])
       = Some (([], [6, 5, 4]), [1, 2, 0], [4, 5, 6, 3])
   \<and> shortest_after Tri False 1 (([[0]], [[3]]), ([0], [3]), False)
       = Some (([[0, 2], [0, 1]], [[3]]), ([2, 1, 0], [3]), False)
   \<and> shortest_after Tri False 1 (([[0, 2], [0, 1]], [[3]]), ([2, 1, 0], [3]), False)
       = Some (([[0, 2], [0, 1]], [[3, 6], [3, 5], [3, 4]]), ([2, 1, 0], [6, 5, 4, 3]), False)
   \<and> shortest_after Tri False 1
         (([[0, 2], [0, 1]], [[3, 6], [3, 5], [3, 4]]), ([2, 1, 0], [6, 5, 4, 3]), False)
       = Some (([[0, 1, 2], [0, 2, 1]], [[3, 6], [3, 5], [3, 4]]), ([2, 1, 0], [6, 5, 4, 3]), False)
   \<and> set (sel (hp_modus ((([2, 1], [6, 5, 4]), [1, 2, 0], [4, 5, 6, 3]) :: nat hp_state))
              (fst ((([], [6, 5, 4]), [1, 2, 0], [4, 5, 6, 3]) :: nat hp_state)))
       \<inter> set (sel (hp_modus ((([2, 1], [6, 5, 4]), [1, 2, 0], [4, 5, 6, 3]) :: nat hp_state))
                 (snd ((([2, 1], [3]), [1, 2, 0], [3]) :: nat hp_state))) = {}
   \<and> last ` set (sel False (fst ((([[0, 2], [0, 1]], [[3]]), ([2, 1, 0], [3]), False) :: nat sh_state)))
       \<subseteq> set (sel False (fst (snd
             ((([[0, 2], [0, 1]], [[3]]), ([2, 1, 0], [3]), False) :: nat sh_state))))
   \<and> set (sel True (fst (snd ((([[0, 2], [0, 1]], [[3]]), ([2, 1, 0], [3]), False) :: nat sh_state))))
       \<subseteq> set (sel True (fst (snd
             ((([[0, 2], [0, 1]], [[3, 6], [3, 5], [3, 4]]), ([2, 1, 0], [6, 5, 4, 3]), False)
                :: nat sh_state))))
   \<and> sel (\<not> round_modus
               ((([[0, 2], [0, 1]], [[3, 6], [3, 5], [3, 4]]), ([2, 1, 0], [6, 5, 4, 3]), False)
                  :: nat sh_state))
         (fst (snd ((([[0, 1, 2], [0, 2, 1]], [[3, 6], [3, 5], [3, 4]]),
                     ([2, 1, 0], [6, 5, 4, 3]), False) :: nat sh_state)))
       = sel (\<not> round_modus
               ((([[0, 2], [0, 1]], [[3, 6], [3, 5], [3, 4]]), ([2, 1, 0], [6, 5, 4, 3]), False)
                  :: nat sh_state))
           (fst (snd ((([[0, 2], [0, 1]], [[3, 6], [3, 5], [3, 4]]),
                       ([2, 1, 0], [6, 5, 4, 3]), False) :: nat sh_state)))"
proof -
  note h = Tri_has_path_states
  note g = Tri_shortest_states
  note a1 = seen_sets[THEN conjunct1, THEN mp, OF h(1)]
  note a2 = a1[THEN conjunct2, THEN mp, OF h(2)]
  note a3 = a2[THEN conjunct2, THEN mp, OF h(3)]
  note b1 = seen_sets[THEN conjunct2, THEN mp, OF g(1)]
  note b2 = b1[THEN conjunct2, THEN mp, OF g(2)]
  note b3 = b2[THEN conjunct2, THEN mp, OF g(3)]
  note c1 = a3[THEN conjunct1]
  note c2 = b1[THEN conjunct1, THEN spec[of _ False]]
  note c3 = b2[THEN conjunct1, THEN spec[of _ True]]
  note c4 = b3[THEN conjunct2, THEN conjunct2, THEN conjunct2]
  show ?thesis
    by (intro conjI) (rule h g c1 c2 c3 c4)+
qed

text \<open>
  C8 as stated fails for the all-shortest-paths engine: from node 0 of \<open>Tri\<close> towards node
  3, node 2 is in the seen set of the source side after the first round, and the third
  round, which expands the source side again, admits the path \<open>[0, 1, 2]\<close> that ends in it.
\<close>

theorem seen_sets_counterexample:
  "shortest_after Tri False 2 (([[0]], [[3]]), ([0], [3]), False)
       = Some (([[0, 2], [0, 1]], [[3, 6], [3, 5], [3, 4]]), ([2, 1, 0], [6, 5, 4, 3]), False)
   \<and> shortest_after Tri False 1
         (([[0, 2], [0, 1]], [[3, 6], [3, 5], [3, 4]]), ([2, 1, 0], [6, 5, 4, 3]), False)
       = Some (([[0, 1, 2], [0, 2, 1]], [[3, 6], [3, 5], [3, 4]]), ([2, 1, 0], [6, 5, 4, 3]), False)
   \<and> round_modus (([[0, 2], [0, 1]], [[3, 6], [3, 5], [3, 4]]), ([2, 1, 0], [6, 5, 4, 3 :: nat]), False)
       = False
   \<and> (2 :: nat) \<in> set (sel False ([2, 1, 0], [6, 5, 4, 3]))
   \<and> [0, 1, 2 :: nat] \<in> set (sel False ([[0, 1, 2], [0, 2, 1]], [[3, 6], [3, 5], [3, 4]]))
   \<and> [0, 1, 2 :: nat] \<notin> set (sel False ([[0, 2], [0, 1]], [[3, 6], [3, 5], [3, 4]]))
   \<and> last [0, 1, 2 :: nat] = 2"
proof -
  have 1: "shortest_after Tri False 2 (([[0]], [[3]]), ([0], [3]), False)
       = Some (([[0, 2], [0, 1]], [[3, 6], [3, 5], [3, 4]]), ([2, 1, 0], [6, 5, 4, 3]), False)"
    by code_simp
  note 2 = Tri_shortest_states(3)
  have 3: "round_modus
      (([[0, 2], [0, 1]], [[3, 6], [3, 5], [3, 4]]), ([2, 1, 0], [6, 5, 4, 3 :: nat]), False) = False"
    by (simp add: round_modus_def)
  have 4: "(2 :: nat) \<in> set (sel False ([2, 1, 0], [6, 5, 4, 3]))"
    by (simp add: sel_def)
  have 5: "[0, 1, 2 :: nat] \<in> set (sel False ([[0, 1, 2], [0, 2, 1]], [[3, 6], [3, 5], [3, 4]]))"
    by (simp add: sel_def)
  have 6: "[0, 1, 2 :: nat] \<notin> set (sel False ([[0, 2], [0, 1]], [[3, 6], [3, 5], [3, 4]]))"
    by (simp add: sel_def)
  have 7: "last [0, 1, 2 :: nat] = 2" by simp
  show ?thesis
    by (intro conjI) (rule 1 2 3 4 5 6 7)+
qed


end
